theory Spec2Isabelle
  imports Complex_Main "HOL-Library.Log_Nat"
begin

section \<open>Python strings\<close>

text \<open>
  Python \<open>str\<close> values are modelled as \<open>string\<close> (lists of 8-bit characters), which is
  exact for the ASCII URLs and markup the crawler's patterns are written for.
\<close>

definition upper_letters :: string where
  "upper_letters = ''ABCDEFGHIJKLMNOPQRSTUVWXYZ''"

definition lower_letters :: string where
  "lower_letters = ''abcdefghijklmnopqrstuvwxyz''"

definition digits :: string where
  "digits = ''0123456789''"

text \<open>\<open>str.lower()\<close> on ASCII text.\<close>

definition lower_char :: "char \<Rightarrow> char" where
  "lower_char c = (case map_of (zip upper_letters lower_letters) c of Some d \<Rightarrow> d | None \<Rightarrow> c)"

text \<open>
  The same function read off the bits of the character: the capital letters are the
  codes \<open>0x41\<close> to \<open>0x5A\<close>, and lowering sets bit 5. Evaluation uses this equation.
\<close>

lemma lower_char_bits [code]:
  "lower_char (Char b0 b1 b2 b3 b4 b5 b6 b7) =
     (if \<not> b7 \<and> b6 \<and> \<not> b5 \<and> (b0 \<or> b1 \<or> b2 \<or> b3 \<or> b4) \<and> \<not> (b4 \<and> b3 \<and> (b2 \<or> (b1 \<and> b0)))
      then Char b0 b1 b2 b3 b4 True b6 b7
      else Char b0 b1 b2 b3 b4 b5 b6 b7)"
  unfolding lower_char_def upper_letters_def lower_letters_def
  by (cases b7; cases b6; cases b5; simp; cases b4; cases b3; cases b2; cases b1; cases b0; simp)

definition lower :: "string \<Rightarrow> string" where
  "lower s = map lower_char s"

text \<open>\<open>s.startswith(p)\<close> and the substring test \<open>p in s\<close>.\<close>

fun startswith :: "string \<Rightarrow> string \<Rightarrow> bool" where
  "startswith s [] = True"
| "startswith [] (c # p) = False"
| "startswith (d # s) (c # p) = (if c = d then startswith s p else False)"

fun str_in :: "string \<Rightarrow> string \<Rightarrow> bool" where
  "str_in p [] = (p = [])"
| "str_in p (d # s) = (if startswith (d # s) p then True else str_in p s)"

text \<open>\<open>any(p in s for p in ps)\<close>.\<close>

fun any_in :: "string list \<Rightarrow> string \<Rightarrow> bool" where
  "any_in [] s = False"
| "any_in (p # ps) s = (if str_in p s then True else any_in ps s)"

text \<open>
  \<open>break_at ds s\<close> cuts \<open>s\<close> in front of the first character that belongs to \<open>ds\<close>;
  \<open>split_on c s\<close> is \<open>s.split(c)\<close> for a one-character separator.
\<close>

fun break_at :: "char list \<Rightarrow> string \<Rightarrow> string \<times> string" where
  "break_at ds [] = ([], [])"
| "break_at ds (c # s) =
     (if c \<in> set ds then ([], c # s)
      else (case break_at ds s of (a, b) \<Rightarrow> (c # a, b)))"

fun split_on :: "char \<Rightarrow> string \<Rightarrow> string list" where
  "split_on c [] = [[]]"
| "split_on c (d # s) =
     (if d = c then [] # split_on c s
      else (case split_on c s of [] \<Rightarrow> [[d]] | x # xs \<Rightarrow> (d # x) # xs))"

section \<open>Regular expressions (\<open>re.search\<close>)\<close>

text \<open>
  The fragment of Python's \<open>re\<close> syntax that the pattern tables of the crawlers use:
  literals, character classes, alternation, \<open>?\<close>, \<open>+\<close> and bounded repetition.
  \<open>re_search r s\<close> decides whether some substring of \<open>s\<close> matches \<open>r\<close>, which is when
  \<open>re.search\<close> returns a match object. Matching goes by derivatives.
\<close>

datatype rexp = Nul | Eps | Chr char | Cls "char list" | Alt rexp rexp | Seq rexp rexp | Star rexp

fun nullable :: "rexp \<Rightarrow> bool" where
  "nullable Nul = False"
| "nullable Eps = True"
| "nullable (Chr c) = False"
| "nullable (Cls cs) = False"
| "nullable (Alt r s) = (if nullable r then True else nullable s)"
| "nullable (Seq r s) = (if nullable r then nullable s else False)"
| "nullable (Star r) = True"

text \<open>A syntactic test for an expression that matches nothing at all.\<close>

fun dead :: "rexp \<Rightarrow> bool" where
  "dead Nul = True"
| "dead (Alt r s) = (if dead r then dead s else False)"
| "dead (Seq r s) = (if dead r then True else dead s)"
| "dead r = False"

fun deriv :: "char \<Rightarrow> rexp \<Rightarrow> rexp" where
  "deriv d Nul = Nul"
| "deriv d Eps = Nul"
| "deriv d (Chr c) = (if c = d then Eps else Nul)"
| "deriv d (Cls cs) = (if d \<in> set cs then Eps else Nul)"
| "deriv d (Alt r s) = Alt (deriv d r) (deriv d s)"
| "deriv d (Seq r s) =
     (if nullable r then Alt (Seq (deriv d r) s) (deriv d s) else Seq (deriv d r) s)"
| "deriv d (Star r) = Seq (deriv d r) (Star r)"

text \<open>\<open>match_prefix r s\<close>: some prefix of \<open>s\<close> matches \<open>r\<close> (\<open>re.match\<close>).\<close>

fun match_prefix :: "rexp \<Rightarrow> string \<Rightarrow> bool" where
  "match_prefix r [] = nullable r"
| "match_prefix r (d # t) =
     (if nullable r then True else if dead r then False else match_prefix (deriv d r) t)"

fun re_search :: "rexp \<Rightarrow> string \<Rightarrow> bool" where
  "re_search r [] = nullable r"
| "re_search r (d # t) = (if match_prefix r (d # t) then True else re_search r t)"

text \<open>
  \<open>re.IGNORECASE\<close>: on ASCII text a character matches when it is equal up to case, so
  both the expression and the subject are lowered.
\<close>

fun lower_rexp :: "rexp \<Rightarrow> rexp" where
  "lower_rexp Nul = Nul"
| "lower_rexp Eps = Eps"
| "lower_rexp (Chr c) = Chr (lower_char c)"
| "lower_rexp (Cls cs) = Cls (map lower_char cs)"
| "lower_rexp (Alt r s) = Alt (lower_rexp r) (lower_rexp s)"
| "lower_rexp (Seq r s) = Seq (lower_rexp r) (lower_rexp s)"
| "lower_rexp (Star r) = Star (lower_rexp r)"

definition re_search_ignorecase :: "rexp \<Rightarrow> string \<Rightarrow> bool" where
  "re_search_ignorecase r s = re_search (lower_rexp r) (lower s)"

text \<open>\<open>any(re.search(pattern, s, re.IGNORECASE) for pattern in patterns)\<close>.\<close>

definition any_search_ignorecase :: "rexp list \<Rightarrow> string \<Rightarrow> bool" where
  "any_search_ignorecase rs s = (let t = lower s in list_ex (\<lambda>r. re_search (lower_rexp r) t) rs)"

text \<open>Builders for the pattern tables.\<close>

fun lit :: "string \<Rightarrow> rexp" where
  "lit [] = Eps"
| "lit (c # cs) = Seq (Chr c) (lit cs)"

fun seqs :: "rexp list \<Rightarrow> rexp" where
  "seqs [] = Eps"
| "seqs (r # rs) = Seq r (seqs rs)"

fun alts :: "rexp list \<Rightarrow> rexp" where
  "alts [] = Nul"
| "alts [r] = r"
| "alts (r # rs) = Alt r (alts rs)"

definition opt :: "rexp \<Rightarrow> rexp" where
  "opt r = Alt r Eps"

definition plus :: "rexp \<Rightarrow> rexp" where
  "plus r = Seq r (Star r)"

fun rep :: "nat \<Rightarrow> rexp \<Rightarrow> rexp" where
  "rep 0 r = Eps"
| "rep (Suc n) r = Seq r (rep n r)"

text \<open>The classes \<open>[\w-]\<close>, \<open>[\d]\<close>, \<open>[A-Z0-9]\<close> and \<open>[A-Za-z0-9-]\<close> on ASCII text.\<close>

definition word_dash :: rexp where
  "word_dash = Cls (lower_letters @ upper_letters @ digits @ ''_-'')"

definition digit :: rexp where
  "digit = Cls digits"

definition upper_digit :: rexp where
  "upper_digit = Cls (upper_letters @ digits)"

definition alnum_dash :: rexp where
  "alnum_dash = Cls (upper_letters @ lower_letters @ digits @ ''-'')"

section \<open>\<open>urllib.parse.urlparse\<close>\<close>

text \<open>
  The components of \<open>urlparse(url)\<close> that the crawlers read: the scheme up to the first
  colon (when it is a well-formed scheme name), the network location between \<open>//\<close> and
  the next \<open>/\<close>, \<open>?\<close> or \<open>#\<close>, and the path with fragment, query and the parameters of
  its last segment cut off. Before it splits, \<open>urlsplit\<close> strips the leading C0 control
  characters and blanks of the URL and removes every tab, carriage return and line feed.
  \<open>urlsplit\<close> raises \<open>ValueError\<close> when the network location holds a bracket that is
  not part of a well-formed IP literal; that check is not part of this function, which
  gives the components of the URLs on which \<open>urlsplit\<close> returns.
\<close>

record parsed_url =
  scheme :: string
  netloc :: string
  path :: string

definition split_scheme :: "string \<Rightarrow> string \<times> string" where
  "split_scheme u =
     (case break_at '':'' u of (a, b) \<Rightarrow>
        (if b \<noteq> [] \<and> a \<noteq> [] \<and> hd a \<in> set (lower_letters @ upper_letters)
            \<and> list_all (\<lambda>c. c \<in> set (lower_letters @ upper_letters @ digits @ ''+-.'')) a
         then (lower a, tl b) else ([], u)))"

definition split_netloc :: "string \<Rightarrow> string \<times> string" where
  "split_netloc r = (if startswith r ''//'' then break_at ''/?#'' (drop 2 r) else ([], r))"

definition split_params :: "string \<Rightarrow> string" where
  "split_params p =
     (case break_at ''/'' (rev p) of (last_rev, front_rev) \<Rightarrow>
        rev front_rev @ fst (break_at '';'' (rev last_rev)))"

definition uses_params :: "string list" where
  "uses_params = ['''', ''ftp'', ''hdl'', ''prospero'', ''http'', ''imap'', ''https'', ''shttp'',
     ''rtsp'', ''rtspu'', ''sip'', ''sips'', ''mms'', ''sftp'', ''tel'']"

definition whatwg_c0_control_or_space :: string where
  "whatwg_c0_control_or_space =
     [CHR 0x00, CHR 0x01, CHR 0x02, CHR 0x03, CHR 0x04, CHR 0x05, CHR 0x06, CHR 0x07,
      CHR 0x08, CHR 0x09, CHR 0x0A, CHR 0x0B, CHR 0x0C, CHR 0x0D, CHR 0x0E, CHR 0x0F,
      CHR 0x10, CHR 0x11, CHR 0x12, CHR 0x13, CHR 0x14, CHR 0x15, CHR 0x16, CHR 0x17,
      CHR 0x18, CHR 0x19, CHR 0x1A, CHR 0x1B, CHR 0x1C, CHR 0x1D, CHR 0x1E, CHR 0x1F,
      CHR 0x20]"

definition unsafe_url_bytes_to_remove :: string where
  "unsafe_url_bytes_to_remove = [CHR 0x09, CHR 0x0D, CHR 0x0A]"

definition strip_url :: "string \<Rightarrow> string" where
  "strip_url u =
     filter (\<lambda>ch. ch \<notin> set unsafe_url_bytes_to_remove)
       (dropWhile (\<lambda>ch. ch \<in> set whatwg_c0_control_or_space) u)"

definition urlparse :: "string \<Rightarrow> parsed_url" where
  "urlparse u =
     (case split_scheme (strip_url u) of (sch, r1) \<Rightarrow>
      (case split_netloc r1 of (loc, r2) \<Rightarrow>
      (case fst (break_at ''?'' (fst (break_at ''#'' r2))) of p \<Rightarrow>
         \<lparr>scheme = sch, netloc = loc,
          path = (if sch \<in> set uses_params then split_params p else p)\<rparr>)))"

section \<open>Python floats\<close>

text \<open>
  A Python \<open>float\<close> is an IEEE 754 double. Its value is a rational number, and each
  arithmetic operation returns the double nearest to the exact result, ties going to
  the even significand. \<open>round_double\<close> is that rounding for a significand of 53 bits:
  \<open>binade x\<close> is the exponent \<open>e\<close> with \<open>2^e \<le> x < 2^(e+1)\<close> and \<open>ulp x\<close> the distance
  \<open>2^(e-52)\<close> between neighbouring doubles there. The exponent range of a double is
  not modelled: the numbers of the crawler (weights, their sums over a pattern table
  and the quotients by a count) lie far inside it.
\<close>

definition rne :: "rat \<Rightarrow> int" where
  "rne q =
     (let f = \<lfloor>q\<rfloor>; r = q - of_int f in
      if r < 1 / 2 then f else if 1 / 2 < r then f + 1 else if even f then f else f + 1)"

definition binade :: "rat \<Rightarrow> int" where
  "binade x = (if 1 \<le> x then bitlen \<lfloor>x\<rfloor> - 1 else - bitlen (\<lceil>1 / x\<rceil> - 1))"

definition ulp :: "rat \<Rightarrow> rat" where
  "ulp x = 2 powi (binade x - 52)"

definition round_double :: "rat \<Rightarrow> rat" where
  "round_double x =
     (if x = 0 then 0
      else if 0 < x then of_int (rne (x / ulp x)) * ulp x
      else - (of_int (rne (- x / ulp (- x))) * ulp (- x)))"

text \<open>A decimal literal of the source denotes the nearest double; \<open>+\<close> and \<open>/\<close> round.\<close>

definition float_add :: "rat \<Rightarrow> rat \<Rightarrow> rat" where
  "float_add a b = round_double (a + b)"

definition float_div :: "rat \<Rightarrow> rat \<Rightarrow> rat" where
  "float_div a b = round_double (a / b)"

text \<open>The sum that a loop of \<open>+=\<close> accumulates from \<open>0\<close>, left to right.\<close>

definition float_sum :: "rat list \<Rightarrow> rat" where
  "float_sum ws = foldl float_add 0 ws"

section \<open>Rounding to a double is monotone and exact on small integers\<close>

lemma rne_of_int [simp]: "rne (of_int k) = k"
  by (simp add: rne_def)

lemma rne_bounds: "\<lfloor>q\<rfloor> \<le> rne q \<and> rne q \<le> \<lfloor>q\<rfloor> + 1"
  by (simp add: rne_def Let_def)

lemma rne_mono: "q \<le> q' \<Longrightarrow> rne q \<le> rne q'"
proof -
  assume le: "q \<le> q'"
  then have f: "\<lfloor>q\<rfloor> \<le> \<lfloor>q'\<rfloor>" by (rule floor_mono)
  show ?thesis
  proof (cases "\<lfloor>q\<rfloor> = \<lfloor>q'\<rfloor>")
    case True
    with le have "q - of_int \<lfloor>q\<rfloor> \<le> q' - of_int \<lfloor>q'\<rfloor>" by simp
    with True show ?thesis by (auto simp: rne_def Let_def)
  next
    case False
    with f have "\<lfloor>q\<rfloor> + 1 \<le> \<lfloor>q'\<rfloor>" by simp
    with rne_bounds[of q] rne_bounds[of q'] show ?thesis by linarith
  qed
qed

lemma binade_bounds:
  assumes "0 < x"
  shows "2 powi binade x \<le> x \<and> x < 2 powi (binade x + 1)"
proof (cases "1 \<le> x")
  case True
  then have n: "0 < \<lfloor>x\<rfloor>" by simp
  from bitlen_bounds[OF n] have b: "2 ^ nat (bitlen \<lfloor>x\<rfloor> - 1) \<le> \<lfloor>x\<rfloor>" "\<lfloor>x\<rfloor> < 2 ^ nat (bitlen \<lfloor>x\<rfloor>)"
    by auto
  from n have b1: "1 \<le> bitlen \<lfloor>x\<rfloor>" by (auto simp: bitlen_alt_def)
  have "(2::rat) powi (bitlen \<lfloor>x\<rfloor> - 1) = of_int (2 ^ nat (bitlen \<lfloor>x\<rfloor> - 1))"
    using b1 by (simp add: power_int_nonneg_exp)
  also have "\<dots> \<le> of_int \<lfloor>x\<rfloor>" using b(1) by (simp only: of_int_le_iff)
  also have "\<dots> \<le> x" by simp
  finally have lo: "2 powi (bitlen \<lfloor>x\<rfloor> - 1) \<le> x" .
  have "\<lfloor>x\<rfloor> + 1 \<le> 2 ^ nat (bitlen \<lfloor>x\<rfloor>)" using b(2) by simp
  then have "(of_int (\<lfloor>x\<rfloor> + 1) :: rat) \<le> of_int (2 ^ nat (bitlen \<lfloor>x\<rfloor>))"
    by (simp only: of_int_le_iff)
  moreover have "x < of_int (\<lfloor>x\<rfloor> + 1)" by linarith
  ultimately have "x < of_int (2 ^ nat (bitlen \<lfloor>x\<rfloor>))" by linarith
  also have "\<dots> = (2::rat) powi (bitlen \<lfloor>x\<rfloor>)"
    using b1 by (simp add: power_int_nonneg_exp)
  finally have hi: "x < 2 powi (bitlen \<lfloor>x\<rfloor> - 1 + 1)" by simp
  from lo hi True show ?thesis by (simp add: binade_def)
next
  case False
  define y where "y = 1 / x"
  define m where "m = \<lceil>y\<rceil> - 1"
  from False assms have y1: "1 < y" by (simp add: y_def)
  then have m0: "0 < m" unfolding m_def by (simp add: less_ceiling_iff)
  have my: "of_int m < y" unfolding m_def by linarith
  have ym: "y \<le> of_int (m + 1)" unfolding m_def by linarith
  from bitlen_bounds[OF m0] have b: "2 ^ nat (bitlen m - 1) \<le> m" "m < 2 ^ nat (bitlen m)"
    by auto
  from m0 have b1: "1 \<le> bitlen m" by (auto simp: bitlen_alt_def)
  have p: "(2::rat) powi (bitlen m) = of_int (2 ^ nat (bitlen m))"
    using b1 by (simp add: power_int_nonneg_exp)
  have p1: "(2::rat) powi (bitlen m - 1) = of_int (2 ^ nat (bitlen m - 1))"
    using b1 by (simp add: power_int_nonneg_exp)
  have "m + 1 \<le> 2 ^ nat (bitlen m)" using b(2) by simp
  then have "(of_int (m + 1) :: rat) \<le> of_int (2 ^ nat (bitlen m))" by (simp only: of_int_le_iff)
  with ym p have yhi: "y \<le> 2 powi (bitlen m)" by linarith
  have "(of_int (2 ^ nat (bitlen m - 1)) :: rat) \<le> of_int m" using b(1) by (simp only: of_int_le_iff)
  with my p1 have ylo: "2 powi (bitlen m - 1) < y" by linarith
  have x: "x = 1 / y" using assms by (simp add: y_def)
  have ypos: "0 < y" using y1 by simp
  have lo: "2 powi (- bitlen m) \<le> x"
  proof -
    have "1 / (2 powi (bitlen m)) \<le> 1 / y"
      using yhi ypos by (simp add: frac_le)
    then show ?thesis unfolding x by (simp add: power_int_minus_divide)
  qed
  have hi: "x < 2 powi (- bitlen m + 1)"
  proof -
    have "0 < (2::rat) powi (bitlen m - 1)" by simp
    with ylo have "1 / y < 1 / (2 powi (bitlen m - 1))"
      by (simp add: frac_less2)
    moreover have "1 / ((2::rat) powi (bitlen m - 1)) = 2 powi (- (bitlen m - 1))"
      by (rule power_int_minus_divide[symmetric])
    ultimately show ?thesis unfolding x by simp
  qed
  from lo hi False show ?thesis by (simp add: binade_def y_def m_def)
qed


lemma binade_mono:
  assumes "0 < x" and "x \<le> y"
  shows "binade x \<le> binade y"
proof (rule ccontr)
  assume "\<not> binade x \<le> binade y"
  then have "binade y + 1 \<le> binade x" by simp
  then have "(2::rat) powi (binade y + 1) \<le> 2 powi binade x"
    by (intro power_int_increasing) simp_all
  also have "\<dots> \<le> x" using binade_bounds[OF assms(1)] by simp
  also have "\<dots> \<le> y" by (rule assms(2))
  also have "\<dots> < 2 powi (binade y + 1)" using binade_bounds[of y] assms by simp
  finally show False by simp
qed

lemma ulp_pos: "0 < ulp x"
  by (simp add: ulp_def)

lemma ulp_scale:
  "2 powi binade x / ulp x = 2 ^ 52" "2 powi (binade x + 1) / ulp x = 2 ^ 53"
proof -
  have "(2::rat) powi binade x / 2 powi (binade x - 52) = 2 powi (binade x - (binade x - 52))"
    by (subst power_int_diff) simp_all
  then show "2 powi binade x / ulp x = 2 ^ 52" by (simp add: ulp_def)
  have "(2::rat) powi (binade x + 1) / 2 powi (binade x - 52)
          = 2 powi (binade x + 1 - (binade x - 52))"
    by (subst power_int_diff) simp_all
  then show "2 powi (binade x + 1) / ulp x = 2 ^ 53" by (simp add: ulp_def)
qed

lemma round_double_pos: "0 < x \<Longrightarrow> round_double x = of_int (rne (x / ulp x)) * ulp x"
  by (simp add: round_double_def)

lemma round_double_binade:
  assumes "0 < x"
  shows "2 powi binade x \<le> round_double x \<and> round_double x \<le> 2 powi (binade x + 1)"
proof -
  note b = binade_bounds[OF assms]
  have "2 powi binade x / ulp x \<le> x / ulp x"
    using b ulp_pos[of x] by (intro divide_right_mono) simp_all
  then have lo: "2 ^ 52 \<le> x / ulp x" by (simp only: ulp_scale)
  have "x / ulp x \<le> 2 powi (binade x + 1) / ulp x"
    using b ulp_pos[of x] by (intro divide_right_mono) simp_all
  then have hi: "x / ulp x \<le> 2 ^ 53" by (simp only: ulp_scale)
  have "rne (of_int (2 ^ 52)) \<le> rne (x / ulp x)" using lo by (intro rne_mono) simp
  then have l: "(2 ^ 52 :: rat) \<le> of_int (rne (x / ulp x))"
    by (simp only: rne_of_int) (metis of_int_le_iff of_int_numeral of_int_power)
  have "rne (x / ulp x) \<le> rne (of_int (2 ^ 53))" using hi by (intro rne_mono) simp
  then have h: "of_int (rne (x / ulp x)) \<le> (2 ^ 53 :: rat)"
    by (simp only: rne_of_int) (metis of_int_le_iff of_int_numeral of_int_power)
  have "2 powi binade x = 2 ^ 52 * ulp x"
    using ulp_scale(1)[of x] ulp_pos[of x] by (simp add: field_simps)
  also have "\<dots> \<le> of_int (rne (x / ulp x)) * ulp x"
    using l ulp_pos[of x] by (intro mult_right_mono) simp_all
  finally have 1: "2 powi binade x \<le> round_double x" by (simp add: round_double_pos assms)
  have "of_int (rne (x / ulp x)) * ulp x \<le> 2 ^ 53 * ulp x"
    using h ulp_pos[of x] by (intro mult_right_mono) simp_all
  also have "\<dots> = 2 powi (binade x + 1)"
    using ulp_scale(2)[of x] ulp_pos[of x] by (simp add: field_simps)
  finally have 2: "round_double x \<le> 2 powi (binade x + 1)" by (simp add: round_double_pos assms)
  from 1 2 show ?thesis ..
qed

lemma round_double_0 [simp]: "round_double 0 = 0"
  by (simp add: round_double_def)

lemma round_double_mono:
  assumes "0 \<le> x" and "x \<le> y"
  shows "round_double x \<le> round_double y"
proof (cases "x = 0")
  case True
  show ?thesis
  proof (cases "y = 0")
    case True
    with \<open>x = 0\<close> show ?thesis by simp
  next
    case False
    with assms True have y: "0 < y" by simp
    have "(0::rat) < 2 powi binade y" by simp
    with round_double_binade[OF y] have "0 \<le> round_double y" by linarith
    with True show ?thesis by simp
  qed
next
  case False
  with assms have x: "0 < x" and y: "0 < y" by simp_all
  from binade_mono[OF x assms(2)] consider "binade x = binade y" | "binade x + 1 \<le> binade y"
    by linarith
  then show ?thesis
  proof cases
    case 1
    then have u: "ulp x = ulp y" by (simp add: ulp_def)
    have "x / ulp y \<le> y / ulp y" using assms(2) ulp_pos[of y] by (simp add: divide_right_mono)
    then have "rne (x / ulp y) \<le> rne (y / ulp y)" by (rule rne_mono)
    then have "(of_int (rne (x / ulp y)) :: rat) \<le> of_int (rne (y / ulp y))" by simp
    then have "of_int (rne (x / ulp y)) * ulp y \<le> of_int (rne (y / ulp y)) * ulp y"
      using ulp_pos[of y] by (intro mult_right_mono) simp_all
    then show ?thesis by (simp add: round_double_pos x y u)
  next
    case 2
    have "round_double x \<le> 2 powi (binade x + 1)" using round_double_binade[OF x] by simp
    also have "\<dots> \<le> 2 powi binade y" using 2 by (intro power_int_increasing) simp_all
    also have "\<dots> \<le> round_double y" using round_double_binade[OF y] by simp
    finally show ?thesis .
  qed
qed

lemma round_double_of_nat:
  assumes "n < 2 ^ 53"
  shows "round_double (of_nat n) = of_nat n"
proof (cases "n = 0")
  case True
  then show ?thesis by simp
next
  case False
  define x :: rat where "x = of_nat n"
  from False have x: "0 < x" by (simp add: x_def)
  define k where "k = nat (52 - binade x)"
  have "2 powi binade x \<le> x" using binade_bounds[OF x] by simp
  also have "x < 2 ^ 53" using assms unfolding x_def
    by (metis of_nat_less_iff of_nat_numeral of_nat_power)
  finally have "(2::rat) powi binade x < 2 powi 53" by simp
  then have "binade x < 53" by (rule power_int_le_imp_less_exp[rotated]) simp_all
  then have e: "binade x - 52 = - int k" by (simp add: k_def)
  have u: "ulp x = 1 / 2 ^ k" unfolding ulp_def e by (simp add: power_int_minus_divide)
  have "x / ulp x = x * 2 ^ k" by (simp add: u)
  also have "\<dots> = of_int (int n * 2 ^ k)" by (simp add: x_def)
  finally have "x / ulp x = of_int (int n * 2 ^ k)" .
  then have "rne (x / ulp x) = int n * 2 ^ k" by (simp only: rne_of_int)
  then have "round_double x = of_int (int n * 2 ^ k) * (1 / 2 ^ k)"
    by (simp add: round_double_pos x u)
  then show ?thesis by (simp add: x_def)
qed

lemma round_double_unit:
  assumes "0 \<le> q" and "q \<le> 1"
  shows "0 \<le> round_double q \<and> round_double q \<le> 1"
proof -
  have "round_double 0 \<le> round_double q" using assms(1) by (intro round_double_mono) simp_all
  moreover have "round_double q \<le> round_double (of_nat 1)"
    using assms by (intro round_double_mono) simp_all
  moreover have "round_double (of_nat 1) = of_nat 1" by (rule round_double_of_nat) simp
  ultimately show ?thesis by simp
qed

lemma float_sum_snoc: "float_sum (ws @ [w]) = float_add (float_sum ws) w"
  by (simp add: float_sum_def)

lemma float_sum_bounds:
  assumes "\<And>w. w \<in> set ws \<Longrightarrow> 0 \<le> w \<and> w \<le> 1" and "length ws < 2 ^ 53"
  shows "0 \<le> float_sum ws \<and> float_sum ws \<le> of_nat (length ws)"
  using assms
proof (induction ws rule: rev_induct)
  case Nil
  show ?case by (simp add: float_sum_def)
next
  case (snoc w ws)
  have ih: "0 \<le> float_sum ws \<and> float_sum ws \<le> of_nat (length ws)"
    using snoc.prems by (intro snoc.IH) simp_all
  have w: "0 \<le> w \<and> w \<le> 1" using snoc.prems(1) by simp
  have "round_double 0 \<le> round_double (float_sum ws + w)"
    using ih w by (intro round_double_mono) simp_all
  then have lo: "0 \<le> float_sum (ws @ [w])" by (simp add: float_sum_snoc float_add_def)
  have "round_double (float_sum ws + w) \<le> round_double (of_nat (Suc (length ws)))"
    using ih w by (intro round_double_mono) simp_all
  also have "\<dots> = of_nat (Suc (length ws))"
    using snoc.prems(2) by (intro round_double_of_nat) simp
  finally have hi: "float_sum (ws @ [w]) \<le> of_nat (length (ws @ [w]))"
    by (simp add: float_sum_snoc float_add_def)
  from lo hi show ?case ..
qed

lemma float_average_bounds:
  assumes "\<And>w. w \<in> set ws \<Longrightarrow> 0 \<le> w \<and> w \<le> 1" and "length ws < 2 ^ 53" and "ws \<noteq> []"
  shows "0 \<le> float_div (float_sum ws) (of_nat (length ws)) \<and>
         float_div (float_sum ws) (of_nat (length ws)) \<le> 1"
proof -
  have pos: "(0::rat) < of_nat (length ws)" using assms(3) by simp
  from float_sum_bounds[OF assms(1,2)]
  have s: "0 \<le> float_sum ws" "float_sum ws \<le> of_nat (length ws)" by auto
  with pos have q: "0 \<le> float_sum ws / of_nat (length ws)" "float_sum ws / of_nat (length ws) \<le> 1"
    by (simp_all add: divide_le_eq)
  from round_double_unit[OF q] show ?thesis by (simp add: float_div_def)
qed

section \<open>The browser crawler (\<open>advance.py\<close>): page classification\<close>

text \<open>
  \<open>ProductUrlMatch\<close>. The confidence is a Python float: a rational that is a double.
\<close>

record product_url_match =
  pm_url :: string
  confidence :: rat
  matched_patterns :: "string list"

text \<open>
  A pattern table entry: the pattern as it is written in the source (it is quoted in the
  log label), the expression it denotes, and its weight, the double nearest to the
  decimal literal of the source.
\<close>

type_synonym pattern = "string \<times> rexp \<times> rat"

definition bs :: string where
  "bs = [CHR 0x5C]"

definition url_patterns :: "pattern list" where
  "url_patterns =
    [(''/product[s]?/['' @ bs @ ''w-]+'',
        seqs [lit ''/product'', opt (Chr CHR ''s''), lit ''/'', plus word_dash], round_double (95 / 100)),
     (''/p/['' @ bs @ ''w-]+'', seqs [lit ''/p/'', plus word_dash], round_double (95 / 100)),
     (''/dp/'', lit ''/dp/'', round_double (95 / 100)),
     (''/item/['' @ bs @ ''w-]+'', seqs [lit ''/item/'', plus word_dash], round_double (95 / 100)),
     (''/-i-['' @ bs @ ''w-]+'', seqs [lit ''/-i-'', plus word_dash], round_double (95 / 100)),
     (''/pd/['' @ bs @ ''w-]+'', seqs [lit ''/pd/'', plus word_dash], round_double (8 / 10)),
     (''/['' @ bs @ ''w-]+-p-['' @ bs @ ''d]+'',
        seqs [lit ''/'', plus word_dash, lit ''-p-'', plus digit], round_double (8 / 10)),
     (''/shop/['' @ bs @ ''w-]+'', seqs [lit ''/shop/'', plus word_dash], round_double (6 / 10)),
     (''/['' @ bs @ ''w-]+-['' @ bs @ ''d]+'' @ bs @ ''.html'',
        seqs [lit ''/'', plus word_dash, lit ''-'', plus digit, lit ''.html''], round_double (6 / 10))]"

definition content_patterns :: "pattern list" where
  "content_patterns =
    [(''Add to (?:Cart|Basket)'',
        seqs [lit ''Add to '', alts [lit ''Cart'', lit ''Basket'']], round_double (8 / 10)),
     (''Product Description'', lit ''Product Description'', round_double (7 / 10)),
     (''Buy Now'', lit ''Buy Now'', round_double (7 / 10)),
     (''Add to Wishlist'', lit ''Add to Wishlist'', round_double (6 / 10)),
     (''Specifications'', lit ''Specifications'', round_double (6 / 10)),
     (''Technical Details'', lit ''Technical Details'', round_double (6 / 10)),
     (''Price'', lit ''Price'', round_double (5 / 10)),
     (''SKU|Item Code'', alts [lit ''SKU'', lit ''Item Code''], round_double (5 / 10))]"

text \<open>The Amazon content patterns are CSS selectors handed to \<open>page.query_selector\<close>.\<close>

definition amazon_content_patterns :: "(string \<times> rat) list" where
  "amazon_content_patterns =
    [(''#productTitle'', round_double (9 / 10)),
     (''#priceblock_ourprice'', round_double (8 / 10)),
     (''#buy-now-button'', round_double (8 / 10)),
     (''#add-to-cart-button'', round_double (8 / 10)),
     (''#breadcrumb-back-link'', round_double (7 / 10))]"

definition amazon_product_patterns :: "pattern list" where
  "amazon_product_patterns =
    [(''/dp/[A-Z0-9]{10}'', seqs [lit ''/dp/'', rep 10 upper_digit], round_double (95 / 100)),
     (''/gp/product/[A-Z0-9]{10}'', seqs [lit ''/gp/product/'', rep 10 upper_digit], round_double (95 / 100)),
     (''/[A-Za-z0-9-]+/dp/[A-Z0-9]{10}'',
        seqs [lit ''/'', plus alnum_dash, lit ''/dp/'', rep 10 upper_digit], round_double (95 / 100))]"

text \<open>
  What \<open>is_product_page\<close> reads from the live page: its current URL, the answer of
  \<open>page.query_selector\<close> to each selector (an element, nothing, or an exception), and
  the serialised DOM of \<open>page.content()\<close> (\<open>None\<close> when the call raises).
\<close>

datatype element_query = Found | NotFound | QueryRaises

record page =
  page_url :: string
  query_selector :: "string \<Rightarrow> element_query"
  page_content :: "string option"

text \<open>The three accumulators of \<open>is_product_page\<close>.\<close>

record score =
  confidence_score :: rat
  pattern_matches :: nat
  matched :: "string list"

definition hit :: "string \<Rightarrow> rat \<Rightarrow> score \<Rightarrow> score" where
  "hit label w a =
     \<lparr>confidence_score = float_add (confidence_score a) w,
      pattern_matches = pattern_matches a + 1,
      matched = matched a @ [label]\<rparr>"

text \<open>The \<open>for pattern, score in ...: if re.search(...)\<close> loops.\<close>

fun pattern_loop :: "(rexp \<Rightarrow> bool) \<Rightarrow> string \<Rightarrow> pattern list \<Rightarrow> score \<Rightarrow> score" where
  "pattern_loop test label [] a = a"
| "pattern_loop test label ((src, r, w) # ps) a =
     pattern_loop test label ps (if test r then hit (label @ src) w a else a)"

text \<open>
  The loop over the Amazon selectors runs inside a \<open>try\<close>: an exception of
  \<open>query_selector\<close> ends it and keeps what was accumulated.
\<close>

fun selector_loop :: "page \<Rightarrow> (string \<times> rat) list \<Rightarrow> score \<Rightarrow> score" where
  "selector_loop pg [] a = a"
| "selector_loop pg ((sel, w) # ps) a =
     (case query_selector pg sel of
        QueryRaises \<Rightarrow> a
      | Found \<Rightarrow> selector_loop pg ps (hit (''Amazon content pattern: '' @ sel) w a)
      | NotFound \<Rightarrow> selector_loop pg ps a)"

definition accumulate :: "page \<Rightarrow> score" where
  "accumulate pg =
     (let current_url_lower = lower (page_url pg);
          a0 = \<lparr>confidence_score = 0, pattern_matches = 0, matched = []\<rparr>
      in if str_in ''amazon'' current_url_lower
         then selector_loop pg amazon_content_patterns
                (pattern_loop (\<lambda>r. re_search r current_url_lower) ''Amazon URL pattern: ''
                   amazon_product_patterns a0)
         else (let a1 = pattern_loop (\<lambda>r. re_search r current_url_lower) ''URL pattern: ''
                          url_patterns a0
               in case page_content pg of
                    None \<Rightarrow> a1
                  | Some c \<Rightarrow> pattern_loop (\<lambda>r. re_search_ignorecase r c) ''Content pattern: ''
                               content_patterns a1))"

definition is_product_page :: "page \<Rightarrow> product_url_match option" where
  "is_product_page pg =
     (let a = accumulate pg in
      if pattern_matches a > 0
      then (let c = float_div (confidence_score a) (of_nat (pattern_matches a)) in
            if c \<ge> 1 / 2
            then Some \<lparr>pm_url = page_url pg, confidence = c, matched_patterns = matched a\<rparr>
            else None)
      else None)"

text \<open>
  The weights of the patterns that matched on a page, in the order the loops meet them.
\<close>

definition hits :: "(rexp \<Rightarrow> bool) \<Rightarrow> pattern list \<Rightarrow> rat list" where
  "hits test ps = map (\<lambda>(src, r, w). w) (filter (\<lambda>(src, r, w). test r) ps)"

fun selector_hits :: "page \<Rightarrow> (string \<times> rat) list \<Rightarrow> rat list" where
  "selector_hits pg [] = []"
| "selector_hits pg ((sel, w) # ps) =
     (case query_selector pg sel of
        QueryRaises \<Rightarrow> []
      | Found \<Rightarrow> w # selector_hits pg ps
      | NotFound \<Rightarrow> selector_hits pg ps)"

definition matched_weights :: "page \<Rightarrow> rat list" where
  "matched_weights pg =
     (if str_in ''amazon'' (lower (page_url pg))
      then hits (\<lambda>r. re_search r (lower (page_url pg))) amazon_product_patterns
           @ selector_hits pg amazon_content_patterns
      else hits (\<lambda>r. re_search r (lower (page_url pg))) url_patterns
           @ (case page_content pg of
                None \<Rightarrow> []
              | Some c \<Rightarrow> hits (\<lambda>r. re_search_ignorecase r c) content_patterns))"

text \<open>
  Two pages for the scenarios: one whose URL matches \<open>/dp/\<close> alone, and one whose URL
  matches \<open>/shop/[\w-]+\<close> (0.6) and whose content matches \<open>Add to (?:Cart|Basket)\<close>
  (0.8) and \<open>Buy Now\<close> (0.7).
\<close>

definition shop_dp_page :: page where
  "shop_dp_page =
     \<lparr>page_url = ''https://shop.example/dp/B000123'',
      query_selector = (\<lambda>sel. NotFound),
      page_content = None\<rparr>"

definition shop_mug_page :: page where
  "shop_mug_page =
     \<lparr>page_url = ''https://store.example/shop/mug'',
      query_selector = (\<lambda>sel. NotFound),
      page_content = Some ''<button>Add to cart</button> <a>buy now</a>''\<rparr>"

section \<open>Classification: the confidence is the average of the matched weights\<close>

lemma pattern_loop_score:
  "confidence_score (pattern_loop test label ps a)
     = foldl float_add (confidence_score a) (hits test ps)"
  by (induction ps arbitrary: a) (auto simp: hits_def hit_def)

lemma pattern_loop_matches:
  "pattern_matches (pattern_loop test label ps a) = pattern_matches a + length (hits test ps)"
  by (induction ps arbitrary: a) (auto simp: hits_def hit_def)

lemma selector_loop_score:
  "confidence_score (selector_loop pg ps a)
     = foldl float_add (confidence_score a) (selector_hits pg ps)"
  by (induction ps arbitrary: a) (auto simp: hit_def split: element_query.splits)

lemma selector_loop_matches:
  "pattern_matches (selector_loop pg ps a) = pattern_matches a + length (selector_hits pg ps)"
  by (induction ps arbitrary: a) (auto simp: hit_def split: element_query.splits)

lemma accumulate_score: "confidence_score (accumulate pg) = float_sum (matched_weights pg)"
  by (simp add: accumulate_def matched_weights_def Let_def pattern_loop_score
      selector_loop_score float_sum_def split: option.splits)

lemma accumulate_matches: "pattern_matches (accumulate pg) = length (matched_weights pg)"
  by (simp add: accumulate_def matched_weights_def Let_def pattern_loop_matches
      selector_loop_matches split: option.splits)

lemma hits_subset: "set (hits test ps) \<subseteq> (\<lambda>(src, r, w). w) ` set ps"
  by (force simp: hits_def)

lemma selector_hits_subset: "set (selector_hits pg ps) \<subseteq> snd ` set ps"
  by (induction ps) (auto split: element_query.splits)

lemma length_hits: "length (hits test ps) \<le> length ps"
  by (simp add: hits_def)

lemma length_selector_hits: "length (selector_hits pg ps) \<le> length ps"
  by (induction ps) (auto split: element_query.splits)

lemma length_matched_weights: "length (matched_weights pg) \<le> 17"
proof -
  have t: "length amazon_product_patterns = 3" "length amazon_content_patterns = 5"
    "length url_patterns = 9" "length content_patterns = 8"
    by (simp_all add: amazon_product_patterns_def amazon_content_patterns_def url_patterns_def
        content_patterns_def)
  note h = length_hits[of "\<lambda>r. re_search r (lower (page_url pg))" amazon_product_patterns]
    length_selector_hits[of pg amazon_content_patterns]
    length_hits[of "\<lambda>r. re_search r (lower (page_url pg))" url_patterns]
  show ?thesis
  proof (cases "str_in ''amazon'' (lower (page_url pg))")
    case True
    with h t show ?thesis by (simp add: matched_weights_def)
  next
    case False
    show ?thesis
    proof (cases "page_content pg")
      case None
      with False h t show ?thesis by (simp add: matched_weights_def)
    next
      case (Some c)
      with False h t length_hits[of "\<lambda>r. re_search_ignorecase r c" content_patterns]
      show ?thesis by (simp add: matched_weights_def)
    qed
  qed
qed

lemma matched_weights_range: "w \<in> set (matched_weights pg) \<Longrightarrow> 0 \<le> w \<and> w \<le> 1"
proof -
  assume w: "w \<in> set (matched_weights pg)"
  have u: "0 \<le> round_double q \<and> round_double q \<le> 1" if "0 \<le> q \<and> q \<le> 1" for q
    using that round_double_unit by blast
  have a: "\<forall>x \<in> (\<lambda>(src, r, w). w) ` set amazon_product_patterns. 0 \<le> x \<and> x \<le> (1::rat)"
    by (simp add: amazon_product_patterns_def u)
  have b: "\<forall>x \<in> snd ` set amazon_content_patterns. 0 \<le> x \<and> x \<le> (1::rat)"
    by (simp add: amazon_content_patterns_def u)
  have c: "\<forall>x \<in> (\<lambda>(src, r, w). w) ` set url_patterns. 0 \<le> x \<and> x \<le> (1::rat)"
    by (simp add: url_patterns_def u)
  have d: "\<forall>x \<in> (\<lambda>(src, r, w). w) ` set content_patterns. 0 \<le> x \<and> x \<le> (1::rat)"
    by (simp add: content_patterns_def u)
  from w consider
      "w \<in> set (hits (\<lambda>r. re_search r (lower (page_url pg))) amazon_product_patterns)"
    | "w \<in> set (selector_hits pg amazon_content_patterns)"
    | "w \<in> set (hits (\<lambda>r. re_search r (lower (page_url pg))) url_patterns)"
    | c where "w \<in> set (hits (\<lambda>r. re_search_ignorecase r c) content_patterns)"
    by (auto simp: matched_weights_def split: if_splits option.splits)
  then show ?thesis
  proof cases
    case 1 with a hits_subset show ?thesis by blast
  next
    case 2 with b selector_hits_subset show ?thesis by blast
  next
    case 3 with c hits_subset show ?thesis by blast
  next
    case 4 with d hits_subset show ?thesis by blast
  qed
qed

text \<open>
  C1. \<open>is_product_page\<close> returns a verdict only when at least one pattern matched; the
  confidence of a verdict is the sum of the matched weights divided by the number of
  matches, both computed in double arithmetic as the code computes them; it lies
  between 0 and 1 and is at least 0.5; with no match there is no verdict.
\<close>

theorem is_product_page_average:
  "(matched_weights pg = [] \<longrightarrow> is_product_page pg = None) \<and>
   (\<forall>m. is_product_page pg = Some m \<longrightarrow>
      matched_weights pg \<noteq> [] \<and>
      confidence m
        = float_div (float_sum (matched_weights pg)) (of_nat (length (matched_weights pg))) \<and>
      0 \<le> confidence m \<and> confidence m \<le> 1 \<and> 1 / 2 \<le> confidence m)"
proof (intro conjI allI impI)
  assume "matched_weights pg = []"
  then show "is_product_page pg = None"
    by (simp add: is_product_page_def Let_def accumulate_matches)
next
  fix m assume m: "is_product_page pg = Some m"
  then have ne: "matched_weights pg \<noteq> []"
    by (auto simp: is_product_page_def Let_def accumulate_matches split: if_splits)
  from m have c: "confidence m
      = float_div (float_sum (matched_weights pg)) (of_nat (length (matched_weights pg)))"
    by (auto simp: is_product_page_def Let_def accumulate_matches accumulate_score split: if_splits)
  from m have h: "1 / 2 \<le> confidence m"
    by (auto simp: is_product_page_def Let_def split: if_splits)
  have len: "length (matched_weights pg) < 2 ^ 53"
    using length_matched_weights[of pg] by simp
  have r: "0 \<le> w \<and> w \<le> 1" if "w \<in> set (matched_weights pg)" for w
    using that by (rule matched_weights_range)
  from float_average_bounds[OF r len ne]
  have b: "0 \<le> confidence m \<and> confidence m \<le> 1" unfolding c by blast
  show "matched_weights pg \<noteq> []" by (rule ne)
  show "confidence m
      = float_div (float_sum (matched_weights pg)) (of_nat (length (matched_weights pg)))"
    by (rule c)
  show "0 \<le> confidence m" using b by simp
  show "confidence m \<le> 1" using b by simp
  show "1 / 2 \<le> confidence m" by (rule h)
qed

text \<open>
  The verdicts of the two pages: the double nearest to 0.95, and for the weights 0.6,
  0.8 and 0.7 the double \<open>0.6999999999999998\<close>, which is below the double nearest to 0.7.
\<close>

lemma shop_dp_page_verdict:
  "is_product_page shop_dp_page =
     Some \<lparr>pm_url = ''https://shop.example/dp/B000123'',
           confidence = 4278419646001971 / 4503599627370496,
           matched_patterns = [''URL pattern: /dp/'']\<rparr>"
  by code_simp

lemma shop_mug_page_verdict:
  "map_option confidence (is_product_page shop_mug_page)
     = Some (6305039478318693 / 9007199254740992)"
  "map_option confidence (is_product_page shop_mug_page) \<noteq> Some (7 / 10)"
  "\<not> 6305039478318693 / 9007199254740992 \<ge> round_double (7 / 10)"
  by code_simp+

theorem is_product_page_average_witness:
  "is_product_page shop_dp_page =
     Some \<lparr>pm_url = ''https://shop.example/dp/B000123'',
           confidence = 4278419646001971 / 4503599627370496,
           matched_patterns = [''URL pattern: /dp/'']\<rparr> \<and>
   matched_weights shop_dp_page \<noteq> [] \<and>
   (4278419646001971 / 4503599627370496 :: rat)
     = float_div (float_sum (matched_weights shop_dp_page))
         (of_nat (length (matched_weights shop_dp_page))) \<and>
   (1 / 2 :: rat) \<le> 4278419646001971 / 4503599627370496"
  using is_product_page_average[of shop_dp_page] shop_dp_page_verdict
  by simp

section \<open>The browser crawler (\<open>advance.py\<close>): the fetch with retries\<close>

text \<open>
  \<open>EcommerceCrawler\<close>: the configuration and the per-domain result map. \<open>__init__\<close>
  creates one empty set under each configured domain string.
\<close>

record ecommerce_crawler =
  domains :: "string list"
  product_urls :: "string \<rightharpoonup> string set"
  max_retries :: int
  retry_delay :: int
  scroll_timeout :: int
  max_scroll_attempts :: int
  dynamic_wait :: int

definition ecommerce_crawler_init ::
  "string list \<Rightarrow> int \<Rightarrow> int \<Rightarrow> int \<Rightarrow> int \<Rightarrow> int \<Rightarrow> ecommerce_crawler" where
  "ecommerce_crawler_init ds retries delay timeout attempts wait =
     \<lparr>domains = ds,
      product_urls = (\<lambda>d. if d \<in> set ds then Some {} else None),
      max_retries = retries, retry_delay = delay, scroll_timeout = timeout,
      max_scroll_attempts = attempts, dynamic_wait = wait\<rparr>"

text \<open>The crawler of the source's \<open>__main__\<close>, with the default retry settings.\<close>

definition amazon_in_crawler :: ecommerce_crawler where
  "amazon_in_crawler = ecommerce_crawler_init [''amazon.in''] 3 5 30 10 5"

text \<open>
  What one navigation attempt meets in the browser. \<open>page.goto\<close> returns or raises;
  \<open>page.wait_for_selector\<close> returns an element, returns nothing, raises Playwright's
  \<open>TimeoutError\<close> or raises something else; \<open>page.wait_for_load_state\<close> returns, times
  out or raises something else.
\<close>

datatype goto_result = Navigated | GotoRaises

datatype wait_result = Appeared | ReturnedNone | WaitTimeout | WaitRaises

datatype idle_result = Idle | IdleTimeout | IdleRaises

text \<open>
  The CAPTCHA markers, in the order of \<open>captcha_selectors\<close> in \<open>is_captcha_present\<close>:
  \<open>#captchacharacters\<close>, the \<open>validateCaptcha\<close> form, the \<open>amzn-captcha-verify\<close> input
  and the two \<open>body:has-text(...)\<close> probes. \<open>handle_amazon_captcha\<close> waits for the first
  three only.
\<close>

datatype captcha_selector =
  CaptchaCharacters | ValidateCaptchaForm | CaptchaVerifyInput | EnterCharactersText
  | TypeCharactersText

record attempt =
  goto :: goto_result
  captcha_query :: "captcha_selector \<Rightarrow> element_query"
  captcha_detect :: "captcha_selector \<Rightarrow> wait_result"
  captcha_resolve :: "captcha_selector \<Rightarrow> wait_result"
  load_state :: idle_result

text \<open>
  \<open>is_captcha_present\<close>: the first selector that \<open>query_selector\<close> finds answers
  \<open>True\<close>; an exception is caught and answers \<open>False\<close>.
\<close>

fun captcha_probe :: "attempt \<Rightarrow> captcha_selector list \<Rightarrow> bool" where
  "captcha_probe a [] = False"
| "captcha_probe a (sel # sels) =
     (case captcha_query a sel of
        Found \<Rightarrow> True
      | NotFound \<Rightarrow> captcha_probe a sels
      | QueryRaises \<Rightarrow> False)"

definition is_captcha_present :: "attempt \<Rightarrow> bool" where
  "is_captcha_present a =
     captcha_probe a [CaptchaCharacters, ValidateCaptchaForm, CaptchaVerifyInput,
                      EnterCharactersText, TypeCharactersText]"

text \<open>
  \<open>handle_amazon_captcha\<close>. For each selector, a 5 second \<open>wait_for_selector\<close>; when it
  returns an element, a 300 second wait for \<open>#nav-main, #navbar\<close> and then
  \<open>return True\<close>. Both waits stand in the same \<open>try\<close>, whose \<open>except TimeoutError\<close>
  goes on with the next selector; any other exception reaches the outer handler, which
  returns \<open>False\<close>. After the last selector: \<open>return True\<close>.
\<close>

fun captcha_wait :: "attempt \<Rightarrow> captcha_selector list \<Rightarrow> bool" where
  "captcha_wait a [] = True"
| "captcha_wait a (sel # sels) =
     (case captcha_detect a sel of
        Appeared \<Rightarrow>
          (case captcha_resolve a sel of
             Appeared \<Rightarrow> True
           | ReturnedNone \<Rightarrow> True
           | WaitTimeout \<Rightarrow> captcha_wait a sels
           | WaitRaises \<Rightarrow> False)
      | ReturnedNone \<Rightarrow> captcha_wait a sels
      | WaitTimeout \<Rightarrow> captcha_wait a sels
      | WaitRaises \<Rightarrow> False)"

definition handle_amazon_captcha :: "attempt \<Rightarrow> bool" where
  "handle_amazon_captcha a =
     captcha_wait a [CaptchaCharacters, ValidateCaptchaForm, CaptchaVerifyInput]"

text \<open>
  The exceptions that leave the \<open>try\<close> block of \<open>crawl_with_retry\<close>: from \<open>page.goto\<close>,
  from the subscript \<open>self.product_urls[...]\<close>, and from \<open>wait_for_load_state\<close> when it
  is not the tolerated timeout.
\<close>

datatype exn = NavigationError | KeyError string | LoadStateError

text \<open>
  The fast path: \<open>'amazon' in url\<close> and some Amazon product pattern is found in the URL
  (as given, not lowered). The loop returns at the first pattern that matches.
\<close>

definition fast_path :: "string \<Rightarrow> bool" where
  "fast_path url =
     (if str_in ''amazon'' url
      then list_ex (\<lambda>(src, r, w). re_search r url) amazon_product_patterns
      else False)"

text \<open>
  One pass through the \<open>try\<close> block: either an exception, or the returned flag with
  the result map as the pass leaves it.
\<close>

definition attempt_body ::
  "(string \<rightharpoonup> string set) \<Rightarrow> string \<Rightarrow> attempt \<Rightarrow> exn + bool \<times> (string \<rightharpoonup> string set)" where
  "attempt_body store url a =
     (if fast_path url
      then (case goto a of
              GotoRaises \<Rightarrow> Inl NavigationError
            | Navigated \<Rightarrow>
                (case store (netloc (urlparse url)) of
                   None \<Rightarrow> Inl (KeyError (netloc (urlparse url)))
                 | Some urls \<Rightarrow> Inr (True, store(netloc (urlparse url) \<mapsto> insert url urls))))
      else (case goto a of
              GotoRaises \<Rightarrow> Inl NavigationError
            | Navigated \<Rightarrow>
                (if is_captcha_present a
                 then (if \<not> handle_amazon_captcha a then Inr (False, store)
                       else (case load_state a of
                               IdleRaises \<Rightarrow> Inl LoadStateError
                             | Idle \<Rightarrow> Inr (True, store)
                             | IdleTimeout \<Rightarrow> Inr (True, store)))
                 else (case load_state a of
                         IdleRaises \<Rightarrow> Inl LoadStateError
                       | Idle \<Rightarrow> Inr (True, store)
                       | IdleTimeout \<Rightarrow> Inr (True, store)))))"

text \<open>
  \<open>crawl_with_retry(page, url, retry_count)\<close>. The browser is a function from the
  attempt number to what that attempt meets. The result is the returned flag, the
  crawler with its result map, and the arguments of the \<open>asyncio.sleep\<close> calls in order.
\<close>

function crawl_with_retry ::
  "ecommerce_crawler \<Rightarrow> (nat \<Rightarrow> attempt) \<Rightarrow> string \<Rightarrow> nat \<Rightarrow> bool \<times> ecommerce_crawler \<times> int list"
  where
  "crawl_with_retry c env url retry_count =
     (case attempt_body (product_urls c) url (env retry_count) of
        Inr (flag, store) \<Rightarrow> (flag, c\<lparr>product_urls := store\<rparr>, [])
      | Inl e \<Rightarrow>
          (if int retry_count < max_retries c
           then (case crawl_with_retry c env url (retry_count + 1) of
                   (flag, c', sleeps) \<Rightarrow>
                     (flag, c', retry_delay c * (int retry_count + 1) # sleeps))
           else (False, c, [])))"
  by pat_completeness auto
termination
  by (relation "measure (\<lambda>(c, env, url, retry_count). nat (max_retries c - int retry_count))") auto

text \<open>The waits of a linear backoff from attempt \<open>n\<close> up to, not including, attempt \<open>k\<close>.\<close>

definition backoff :: "ecommerce_crawler \<Rightarrow> nat \<Rightarrow> nat \<Rightarrow> int list" where
  "backoff c n k = map (\<lambda>j. retry_delay c * (int j + 1)) [n..<k]"

text \<open>Attempts for the scenarios.\<close>

definition plain_attempt :: attempt where
  "plain_attempt =
     \<lparr>goto = Navigated, captcha_query = (\<lambda>sel. NotFound),
      captcha_detect = (\<lambda>sel. WaitTimeout), captcha_resolve = (\<lambda>sel. WaitTimeout),
      load_state = Idle\<rparr>"

definition failing_attempt :: attempt where
  "failing_attempt = plain_attempt\<lparr>goto := GotoRaises\<rparr>"

definition fails_twice :: "nat \<Rightarrow> attempt" where
  "fails_twice n = (if n < 2 then failing_attempt else plain_attempt)"

text \<open>
  A CAPTCHA page (\<open>#captchacharacters\<close> is there) on which \<open>#nav-main, #navbar\<close> never
  appears, and one on which it does.
\<close>

definition unresolved_captcha :: attempt where
  "unresolved_captcha =
     plain_attempt
       \<lparr>captcha_query := (\<lambda>sel. if sel = CaptchaCharacters then Found else NotFound),
        captcha_detect := (\<lambda>sel. if sel = CaptchaCharacters then Appeared else WaitTimeout)\<rparr>"

definition resolved_captcha :: attempt where
  "resolved_captcha = unresolved_captcha\<lparr>captcha_resolve := (\<lambda>sel. Appeared)\<rparr>"

section \<open>The fetch with retries: linear backoff\<close>

lemma crawl_with_retry_done:
  "attempt_body (product_urls c) url (env n) = Inr (flag, store) \<Longrightarrow>
   crawl_with_retry c env url n = (flag, c\<lparr>product_urls := store\<rparr>, [])"
  by simp

lemma crawl_with_retry_again:
  "attempt_body (product_urls c) url (env n) = Inl e \<Longrightarrow> int n < max_retries c \<Longrightarrow>
   crawl_with_retry c env url n =
     (case crawl_with_retry c env url (Suc n) of
        (flag, c', sleeps) \<Rightarrow> (flag, c', retry_delay c * (int n + 1) # sleeps))"
  by simp

lemma crawl_with_retry_give_up:
  "attempt_body (product_urls c) url (env n) = Inl e \<Longrightarrow> \<not> int n < max_retries c \<Longrightarrow>
   crawl_with_retry c env url n = (False, c, [])"
  by simp

declare crawl_with_retry.simps [simp del]

lemma backoff_step: "n < k \<Longrightarrow> backoff c n k = retry_delay c * (int n + 1) # backoff c (Suc n) k"
  by (simp add: backoff_def upt_conv_Cons)

lemma backoff_empty: "k \<le> n \<Longrightarrow> backoff c n k = []"
  by (simp add: backoff_def)

lemma retry_until_success:
  assumes "\<And>j. n \<le> j \<Longrightarrow> j < k \<Longrightarrow> \<exists>e. attempt_body (product_urls c) url (env j) = Inl e"
      and "attempt_body (product_urls c) url (env k) = Inr (flag, store)"
      and "n \<le> k" and "int k \<le> max_retries c"
  shows "crawl_with_retry c env url n = (flag, c\<lparr>product_urls := store\<rparr>, backoff c n k)"
  using assms(1,3)
proof (induction "k - n" arbitrary: n)
  case 0
  then have "n = k" by simp
  with assms(2) show ?case by (simp add: crawl_with_retry_done backoff_empty)
next
  case (Suc d)
  then have lt: "n < k" by simp
  with Suc.prems obtain e where e: "attempt_body (product_urls c) url (env n) = Inl e" by blast
  from lt assms(4) have r: "int n < max_retries c" by simp
  have "crawl_with_retry c env url (Suc n) = (flag, c\<lparr>product_urls := store\<rparr>, backoff c (Suc n) k)"
    using Suc.hyps Suc.prems lt by (intro Suc.hyps(1)) auto
  with e r lt show ?case by (simp add: crawl_with_retry_again backoff_step)
qed

lemma retry_exhausted:
  assumes "\<And>j. n \<le> j \<Longrightarrow> int j \<le> max_retries c \<or> j = n \<Longrightarrow>
             \<exists>e. attempt_body (product_urls c) url (env j) = Inl e"
  shows "crawl_with_retry c env url n = (False, c, backoff c n (nat (max_retries c)))"
  using assms
proof (induction "nat (max_retries c) - n" arbitrary: n)
  case 0
  then obtain e where e: "attempt_body (product_urls c) url (env n) = Inl e" by blast
  from 0 have "\<not> int n < max_retries c" by simp
  with e 0 show ?case by (simp add: crawl_with_retry_give_up backoff_empty)
next
  case (Suc d)
  then obtain e where e: "attempt_body (product_urls c) url (env n) = Inl e" by blast
  from Suc have r: "int n < max_retries c" and lt: "n < nat (max_retries c)" by simp_all
  have "crawl_with_retry c env url (Suc n) = (False, c, backoff c (Suc n) (nat (max_retries c)))"
  proof (rule Suc.hyps(1))
    show "d = nat (max_retries c) - Suc n" using Suc.hyps(2) by simp
  next
    fix j assume "Suc n \<le> j" "int j \<le> max_retries c \<or> j = Suc n"
    with r show "\<exists>e. attempt_body (product_urls c) url (env j) = Inl e"
      by (intro Suc.prems) auto
  qed
  with e r lt show ?case by (simp add: crawl_with_retry_again backoff_step)
qed

text \<open>
  C4. A failed attempt number \<open>j < max_retries\<close> is followed by a wait of
  \<open>retry_delay * (j + 1)\<close> seconds and another attempt; when the attempts up to number
  \<open>max_retries\<close> all fail, the fetch returns failure after the waits
  \<open>retry_delay * 1, ..., retry_delay * max_retries\<close>; when attempt number \<open>k\<close> is the
  first that does not fail, its answer is returned after exactly the waits
  \<open>retry_delay * 1, ..., retry_delay * k\<close>.
\<close>

theorem crawl_with_retry_linear_backoff:
  "((\<forall>j<k. \<exists>e. attempt_body (product_urls c) url (env j) = Inl e) \<and>
    attempt_body (product_urls c) url (env k) = Inr (flag, store) \<and> int k \<le> max_retries c
    \<longrightarrow> crawl_with_retry c env url 0 = (flag, c\<lparr>product_urls := store\<rparr>, backoff c 0 k)) \<and>
   ((\<forall>j. int j \<le> max_retries c \<or> j = 0 \<longrightarrow>
        (\<exists>e. attempt_body (product_urls c) url (env j) = Inl e))
    \<longrightarrow> crawl_with_retry c env url 0 = (False, c, backoff c 0 (nat (max_retries c)))) \<and>
   (attempt_body (product_urls c) url (env n) = Inl e \<and> int n < max_retries c
    \<longrightarrow> crawl_with_retry c env url n =
          (case crawl_with_retry c env url (Suc n) of
             (flag, c', sleeps) \<Rightarrow> (flag, c', retry_delay c * (int n + 1) # sleeps)))"
proof (intro conjI impI)
  assume "(\<forall>j<k. \<exists>e. attempt_body (product_urls c) url (env j) = Inl e) \<and>
    attempt_body (product_urls c) url (env k) = Inr (flag, store) \<and> int k \<le> max_retries c"
  then show "crawl_with_retry c env url 0 = (flag, c\<lparr>product_urls := store\<rparr>, backoff c 0 k)"
    by (intro retry_until_success) auto
next
  assume "\<forall>j. int j \<le> max_retries c \<or> j = 0 \<longrightarrow>
        (\<exists>e. attempt_body (product_urls c) url (env j) = Inl e)"
  then show "crawl_with_retry c env url 0 = (False, c, backoff c 0 (nat (max_retries c)))"
    by (intro retry_exhausted) auto
next
  assume "attempt_body (product_urls c) url (env n) = Inl e \<and> int n < max_retries c"
  then show "crawl_with_retry c env url n =
          (case crawl_with_retry c env url (Suc n) of
             (flag, c', sleeps) \<Rightarrow> (flag, c', retry_delay c * (int n + 1) # sleeps))"
    by (simp add: crawl_with_retry_again)
qed

lemma about_us_not_fast: "\<not> fast_path ''https://www.amazon.in/about-us''"
  by code_simp

lemma about_us_plain:
  "attempt_body (product_urls amazon_in_crawler) ''https://www.amazon.in/about-us'' plain_attempt
     = Inr (True, product_urls amazon_in_crawler)"
  by (simp add: attempt_body_def about_us_not_fast plain_attempt_def is_captcha_present_def)

lemma about_us_failing:
  "attempt_body (product_urls amazon_in_crawler) ''https://www.amazon.in/about-us'' failing_attempt
     = Inl NavigationError"
  by (simp add: attempt_body_def about_us_not_fast plain_attempt_def failing_attempt_def)

lemma amazon_in_crawler_settings:
  "max_retries amazon_in_crawler = 3" "retry_delay amazon_in_crawler = 5"
  by (simp_all add: amazon_in_crawler_def ecommerce_crawler_init_def)

theorem crawl_with_retry_linear_backoff_witness:
  "crawl_with_retry amazon_in_crawler fails_twice ''https://www.amazon.in/about-us'' 0
     = (True, amazon_in_crawler, [5 * 1, 5 * 2]) \<and>
   crawl_with_retry amazon_in_crawler (\<lambda>n. failing_attempt) ''https://www.amazon.in/about-us'' 0
     = (False, amazon_in_crawler, [5 * 1, 5 * 2, 5 * 3]) \<and>
   crawl_with_retry amazon_in_crawler (\<lambda>n. failing_attempt) ''https://www.amazon.in/about-us'' 2
     = (case crawl_with_retry amazon_in_crawler (\<lambda>n. failing_attempt)
              ''https://www.amazon.in/about-us'' 3 of
          (flag, c', sleeps) \<Rightarrow> (flag, c', 5 * 3 # sleeps))"
proof -
  let ?u = "''https://www.amazon.in/about-us''"
  let ?c = amazon_in_crawler
  have a: "\<forall>j<2. \<exists>e. attempt_body (product_urls ?c) ?u (fails_twice j) = Inl e"
    by (simp add: fails_twice_def about_us_failing)
  have b: "attempt_body (product_urls ?c) ?u (fails_twice 2) = Inr (True, product_urls ?c)"
    by (simp add: fails_twice_def about_us_plain)
  have c: "int 2 \<le> max_retries ?c" by (simp add: amazon_in_crawler_settings)
  have d: "\<forall>j. int j \<le> max_retries ?c \<or> j = 0 \<longrightarrow>
        (\<exists>e. attempt_body (product_urls ?c) ?u ((\<lambda>n. failing_attempt) j) = Inl e)"
    by (simp add: about_us_failing)
  have e: "attempt_body (product_urls ?c) ?u ((\<lambda>n. failing_attempt) 2) = Inl NavigationError
           \<and> int 2 < max_retries ?c"
    by (simp add: about_us_failing amazon_in_crawler_settings)
  have l: "backoff ?c 0 2 = [5 * 1, 5 * 2]" "backoff ?c 0 3 = [5 * 1, 5 * 2, 5 * 3]"
    by (simp_all add: backoff_def amazon_in_crawler_settings upt_rec)
  from crawl_with_retry_linear_backoff[of 2 ?c ?u fails_twice True "product_urls ?c"] a b c
  have 1: "crawl_with_retry ?c fails_twice ?u 0 = (True, ?c, backoff ?c 0 2)"
    by simp
  from crawl_with_retry_linear_backoff[of 0 ?c ?u "\<lambda>n. failing_attempt" True "product_urls ?c"
      2 NavigationError] d e
  have 2: "crawl_with_retry ?c (\<lambda>n. failing_attempt) ?u 0 = (False, ?c, backoff ?c 0 3)"
    and 3: "crawl_with_retry ?c (\<lambda>n. failing_attempt) ?u 2 =
      (case crawl_with_retry ?c (\<lambda>n. failing_attempt) ?u (Suc 2) of
          (flag, c', sleeps) \<Rightarrow> (flag, c', retry_delay ?c * (int 2 + 1) # sleeps))"
    by (simp_all add: amazon_in_crawler_settings)
  from 1 2 3 l show ?thesis
    by (simp add: amazon_in_crawler_settings eval_nat_numeral)
qed

section \<open>The fast path and the result map\<close>

lemma ecommerce_crawler_init_keys:
  "dom (product_urls (ecommerce_crawler_init ds retries delay timeout attempts wait)) = set ds"
  by (auto simp: ecommerce_crawler_init_def dom_def)

lemma fast_path_attempt_fails:
  assumes "fast_path url" and "store (netloc (urlparse url)) = None"
  shows "attempt_body store url a =
           (case goto a of
              Navigated \<Rightarrow> Inl (KeyError (netloc (urlparse url)))
            | GotoRaises \<Rightarrow> Inl NavigationError)"
  using assms by (simp add: attempt_body_def split: goto_result.splits)

text \<open>
  C10. The fast path files the URL under \<open>urlparse(url).netloc\<close>, and the result map has
  the configured domain strings as its keys. For a fast-path URL whose network location
  is not one of the configured domains, every attempt whose navigation succeeds raises
  \<open>KeyError\<close>; the handler retries it like a navigation failure, and the fetch ends in
  failure after \<open>max_retries\<close> waits with the result map as it was.
\<close>

theorem fast_path_key_error:
  "fast_path url \<and> dom (product_urls c) = set (domains c) \<and>
   netloc (urlparse url) \<notin> set (domains c) \<longrightarrow>
     (goto (env n) = Navigated \<longrightarrow>
        attempt_body (product_urls c) url (env n) = Inl (KeyError (netloc (urlparse url)))) \<and>
     (\<exists>e. attempt_body (product_urls c) url (env n) = Inl e) \<and>
     crawl_with_retry c env url 0 = (False, c, backoff c 0 (nat (max_retries c)))"
proof (intro impI)
  assume h: "fast_path url \<and> dom (product_urls c) = set (domains c) \<and>
    netloc (urlparse url) \<notin> set (domains c)"
  then have none: "product_urls c (netloc (urlparse url)) = None" by auto
  from h have fp: "fast_path url" by simp
  have body: "attempt_body (product_urls c) url a =
           (case goto a of
              Navigated \<Rightarrow> Inl (KeyError (netloc (urlparse url)))
            | GotoRaises \<Rightarrow> Inl NavigationError)" for a
    using fp none by (rule fast_path_attempt_fails)
  have fails: "\<exists>e. attempt_body (product_urls c) url (env j) = Inl e" for j
    by (simp add: body split: goto_result.splits)
  have "crawl_with_retry c env url 0 = (False, c, backoff c 0 (nat (max_retries c)))"
    by (rule retry_exhausted) (rule fails)
  moreover have "goto (env n) = Navigated \<longrightarrow>
        attempt_body (product_urls c) url (env n) = Inl (KeyError (netloc (urlparse url)))"
    by (simp add: body)
  ultimately show "(goto (env n) = Navigated \<longrightarrow>
        attempt_body (product_urls c) url (env n) = Inl (KeyError (netloc (urlparse url)))) \<and>
     (\<exists>e. attempt_body (product_urls c) url (env n) = Inl e) \<and>
     crawl_with_retry c env url 0 = (False, c, backoff c 0 (nat (max_retries c)))"
    using fails by blast
qed

lemma dp_url_fast: "fast_path ''https://www.amazon.in/dp/B0ABCDEFGH''"
  by code_simp

lemma dp_url_netloc: "netloc (urlparse ''https://www.amazon.in/dp/B0ABCDEFGH'') = ''www.amazon.in''"
  by code_simp

theorem fast_path_key_error_witness:
  "fast_path ''https://www.amazon.in/dp/B0ABCDEFGH'' \<and>
   dom (product_urls amazon_in_crawler) = set (domains amazon_in_crawler) \<and>
   netloc (urlparse ''https://www.amazon.in/dp/B0ABCDEFGH'') \<notin> set (domains amazon_in_crawler) \<and>
   goto plain_attempt = Navigated \<and>
   attempt_body (product_urls amazon_in_crawler) ''https://www.amazon.in/dp/B0ABCDEFGH''
     plain_attempt = Inl (KeyError ''www.amazon.in'') \<and>
   crawl_with_retry amazon_in_crawler (\<lambda>n. plain_attempt) ''https://www.amazon.in/dp/B0ABCDEFGH'' 0
     = (False, amazon_in_crawler, [5 * 1, 5 * 2, 5 * 3])"
proof -
  let ?u = "''https://www.amazon.in/dp/B0ABCDEFGH''"
  have k: "dom (product_urls amazon_in_crawler) = set (domains amazon_in_crawler)"
    unfolding amazon_in_crawler_def
    by (simp add: ecommerce_crawler_init_keys) (simp add: ecommerce_crawler_init_def)
  have d: "netloc (urlparse ?u) \<notin> set (domains amazon_in_crawler)"
    by (simp add: dp_url_netloc amazon_in_crawler_def ecommerce_crawler_init_def)
  have g: "goto plain_attempt = Navigated" by (simp add: plain_attempt_def)
  have l: "backoff amazon_in_crawler 0 3 = [5 * 1, 5 * 2, 5 * 3]"
    by (simp add: backoff_def amazon_in_crawler_settings upt_rec)
  from fast_path_key_error[of ?u amazon_in_crawler "\<lambda>n. plain_attempt" 0] dp_url_fast k d g l
  show ?thesis
    by (simp add: dp_url_netloc amazon_in_crawler_settings)
qed

section \<open>The CAPTCHA gate\<close>

text \<open>
  Timeouts alone never make \<open>handle_amazon_captcha\<close> answer \<open>False\<close>: only an exception
  other than \<open>TimeoutError\<close> does.
\<close>

lemma captcha_wait_timeouts:
  "(\<And>sel. captcha_detect a sel \<noteq> WaitRaises \<and> captcha_resolve a sel \<noteq> WaitRaises) \<Longrightarrow>
   captcha_wait a sels"
  by (induction sels) (auto split: wait_result.splits)

lemma handle_amazon_captcha_timeouts:
  "(\<And>sel. captcha_detect a sel \<noteq> WaitRaises \<and> captcha_resolve a sel \<noteq> WaitRaises) \<Longrightarrow>
   handle_amazon_captcha a"
  unfolding handle_amazon_captcha_def by (rule captcha_wait_timeouts)

text \<open>
  C5. On a page where the CAPTCHA marker is present and the 300 second wait for
  \<open>#nav-main, #navbar\<close> times out, \<open>handle_amazon_captcha\<close> answers \<open>True\<close> and
  \<open>crawl_with_retry\<close> returns success without a wait; when the marker of the main
  content appears, it returns success as well.
\<close>

theorem unresolved_captcha_returns_success:
  "is_captcha_present unresolved_captcha \<and>
   captcha_resolve unresolved_captcha CaptchaCharacters = WaitTimeout \<and>
   handle_amazon_captcha unresolved_captcha \<and>
   crawl_with_retry amazon_in_crawler (\<lambda>n. unresolved_captcha) ''https://www.amazon.in/about-us'' 0
     = (True, amazon_in_crawler, []) \<and>
   crawl_with_retry amazon_in_crawler (\<lambda>n. resolved_captcha) ''https://www.amazon.in/about-us'' 0
     = (True, amazon_in_crawler, [])"
proof -
  have 1: "is_captcha_present unresolved_captcha" "is_captcha_present resolved_captcha"
    by (simp_all add: is_captcha_present_def unresolved_captcha_def resolved_captcha_def
        plain_attempt_def)
  have 2: "handle_amazon_captcha unresolved_captcha" "handle_amazon_captcha resolved_captcha"
    by (simp_all add: handle_amazon_captcha_def unresolved_captcha_def resolved_captcha_def
        plain_attempt_def)
  have 3: "load_state unresolved_captcha = Idle" "load_state resolved_captcha = Idle"
    "goto unresolved_captcha = Navigated" "goto resolved_captcha = Navigated"
    "captcha_resolve unresolved_captcha CaptchaCharacters = WaitTimeout"
    by (simp_all add: unresolved_captcha_def resolved_captcha_def plain_attempt_def)
  have "attempt_body (product_urls amazon_in_crawler) ''https://www.amazon.in/about-us''
          unresolved_captcha = Inr (True, product_urls amazon_in_crawler)"
       "attempt_body (product_urls amazon_in_crawler) ''https://www.amazon.in/about-us''
          resolved_captcha = Inr (True, product_urls amazon_in_crawler)"
    by (simp_all add: attempt_body_def about_us_not_fast 1 2 3)
  then show ?thesis using 1 2 3 by (simp add: crawl_with_retry_done)
qed

section \<open>The browser crawler (\<open>advance.py\<close>): link extraction and infinite scroll\<close>

text \<open>
  \<open>extract_urls_from_page\<close>. The page script returns the \<open>href\<close> of every anchor that
  starts with \<open>http\<close>; links that contain one of eight fragments are dropped. The
  argument is the list of anchor targets in the DOM, \<open>None\<close> when \<open>page.evaluate\<close>
  raises (the function then returns the empty set).
\<close>

definition extract_exclusions :: "string list" where
  "extract_exclusions =
     [''/signin'', ''/login'', ''/cart'', ''/help'', ''/gp/'', ''customer-preferences'',
      ''/language'', ''/currency'']"

definition extract_urls_from_page :: "string list option \<Rightarrow> string set" where
  "extract_urls_from_page dom_anchors =
     (case dom_anchors of
        None \<Rightarrow> {}
      | Some hrefs \<Rightarrow>
          set (filter (\<lambda>link. startswith link ''http'' \<and> \<not> any_in extract_exclusions (lower link))
                 hrefs))"

definition load_more_patterns :: "string list" where
  "load_more_patterns =
     [''load more'', ''show more'', ''view more'', ''load products'', ''next page'',
      ''more items'', ''more products'']"

text \<open>
  What \<open>page.query_selector\<close> and the click answer for one load-more pattern: no such
  control, a control that was clicked, a control whose click (or the wait after it)
  raised, or an exception of \<open>query_selector\<close> itself.
\<close>

datatype button_probe = NoButton | Clicked | ClickRaises | ProbeRaises

text \<open>
  What one pass of the \<open>while\<close> loop of \<open>handle_infinite_scroll\<close> observes, in the
  order of the reads: \<open>scrollHeight\<close> at the top of the pass, the load-more controls,
  \<open>scrollHeight\<close> after them, whether the scroll to the bottom and the settle wait
  went through, the anchors in the DOM after the scroll, and
  \<open>(datetime.now() - start_time).seconds\<close>. \<open>None\<close> is an exception of
  \<open>page.evaluate\<close>.
\<close>

record scroll_obs =
  scroll_height :: "int option"
  load_more_buttons :: "string \<Rightarrow> button_probe"
  scroll_height_after :: "int option"
  scroll_to_bottom :: bool
  anchors :: "string list option"
  elapsed_seconds :: int

text \<open>
  The variables of the loop. \<open>scrolls\<close> is not a variable of the source: it counts
  the executions of \<open>window.scrollTo\<close>, so that statements can say how often the page
  was scrolled.
\<close>

record scroll_state =
  all_urls :: "string set"
  prev_height :: int
  scroll_attempts :: int
  scrolls :: nat

definition scroll_start :: scroll_state where
  "scroll_start = \<lparr>all_urls = {}, prev_height = 0, scroll_attempts = 0, scrolls = 0\<rparr>"

datatype pass_result = Continue scroll_state | Break scroll_state

text \<open>
  The \<open>for pattern in self.load_more_patterns\<close> loop; the answer says whether an
  exception escaped it. A click that raises is logged and the loop goes on.
\<close>

fun load_more_loop :: "(string \<Rightarrow> button_probe) \<Rightarrow> string list \<Rightarrow> bool" where
  "load_more_loop probe [] = False"
| "load_more_loop probe (p # ps) =
     (case probe p of
        NoButton \<Rightarrow> load_more_loop probe ps
      | Clicked \<Rightarrow> False
      | ClickRaises \<Rightarrow> load_more_loop probe ps
      | ProbeRaises \<Rightarrow> True)"

text \<open>The pass from \<open>window.scrollTo\<close> on.\<close>

definition after_scroll ::
  "ecommerce_crawler \<Rightarrow> scroll_obs \<Rightarrow> int \<Rightarrow> scroll_state \<Rightarrow> pass_result" where
  "after_scroll c ob current_height st =
     (if \<not> scroll_to_bottom ob then Break st
      else (let new_urls = extract_urls_from_page (anchors ob);
                new_urls_count = card (new_urls - all_urls st);
                st1 = \<lparr>all_urls = all_urls st \<union> new_urls, prev_height = current_height,
                       scroll_attempts = scroll_attempts st + 1, scrolls = scrolls st + 1\<rparr>
            in if elapsed_seconds ob > scroll_timeout c then Break st1
               else if new_urls_count = 0
                    then Continue (st1\<lparr>scroll_attempts := scroll_attempts st1 + 1\<rparr>)
                    else Continue (st1\<lparr>scroll_attempts := 0\<rparr>)))"

text \<open>
  One pass of the loop body. An exception anywhere in it ends the function with the
  links collected so far, as a \<open>break\<close> does.
\<close>

definition scroll_pass :: "ecommerce_crawler \<Rightarrow> scroll_obs \<Rightarrow> scroll_state \<Rightarrow> pass_result" where
  "scroll_pass c ob st =
     (case scroll_height ob of
        None \<Rightarrow> Break st
      | Some current_height \<Rightarrow>
          (if current_height = prev_height st
           then (if load_more_loop (load_more_buttons ob) load_more_patterns then Break st
                 else (case scroll_height_after ob of
                         None \<Rightarrow> Break st
                       | Some new_height \<Rightarrow>
                           (if new_height = current_height then Break st
                            else after_scroll c ob current_height st)))
           else after_scroll c ob current_height st))"

text \<open>
  The \<open>while scroll_attempts < self.max_scroll_attempts\<close> loop over the passes the page
  offers. The answer is \<open>None\<close> when the loop would go on and the list of observations
  has run out.
\<close>

fun scroll_loop ::
  "ecommerce_crawler \<Rightarrow> scroll_obs list \<Rightarrow> scroll_state \<Rightarrow> scroll_state option" where
  "scroll_loop c [] st = (if scroll_attempts st < max_scroll_attempts c then None else Some st)"
| "scroll_loop c (ob # obs) st =
     (if scroll_attempts st < max_scroll_attempts c
      then (case scroll_pass c ob st of
              Break st' \<Rightarrow> Some st'
            | Continue st' \<Rightarrow> scroll_loop c obs st')
      else Some st)"

definition handle_infinite_scroll :: "ecommerce_crawler \<Rightarrow> scroll_obs list \<Rightarrow> string set option" where
  "handle_infinite_scroll c obs = map_option all_urls (scroll_loop c obs scroll_start)"

text \<open>
  The catalogue page of the scenario: the viewport is 1000 pixels high and the page
  5000; two links are there before any scroll, the first scroll brings 12 more and
  raises the page to 7400 pixels, further scrolls bring nothing and leave the height as
  it is. There is no load-more control.
\<close>

definition catalog_initial :: "string list" where
  "catalog_initial = [''https://shop.example/catalog'', ''https://shop.example/sale'']"

definition catalog_loaded :: "string list" where
  "catalog_loaded =
     [''https://shop.example/list/01'', ''https://shop.example/list/02'',
      ''https://shop.example/list/03'', ''https://shop.example/list/04'',
      ''https://shop.example/list/05'', ''https://shop.example/list/06'',
      ''https://shop.example/list/07'', ''https://shop.example/list/08'',
      ''https://shop.example/list/09'', ''https://shop.example/list/10'',
      ''https://shop.example/list/11'', ''https://shop.example/list/12'']"

definition catalog_pass :: "int \<Rightarrow> int \<Rightarrow> scroll_obs" where
  "catalog_pass h secs =
     \<lparr>scroll_height = Some h, load_more_buttons = (\<lambda>p. NoButton), scroll_height_after = Some h,
      scroll_to_bottom = True, anchors = Some (catalog_initial @ catalog_loaded),
      elapsed_seconds = secs\<rparr>"

definition catalog_scroll :: "scroll_obs list" where
  "catalog_scroll =
     [catalog_pass 5000 1, catalog_pass 7400 2, catalog_pass 7400 3, catalog_pass 7400 4]"

section \<open>Infinite scroll: the stall counter and the stop\<close>

lemma after_scroll_gain:
  "after_scroll c ob h st = Continue st' \<Longrightarrow>
   card (extract_urls_from_page (anchors ob) - all_urls st) \<noteq> 0 \<Longrightarrow> scroll_attempts st' = 0"
  by (auto simp: after_scroll_def Let_def split: if_splits)

lemma after_scroll_stall:
  "after_scroll c ob h st = Continue st' \<Longrightarrow>
   card (extract_urls_from_page (anchors ob) - all_urls st) = 0 \<Longrightarrow>
   scroll_attempts st' = scroll_attempts st + 2"
  by (auto simp: after_scroll_def Let_def split: if_splits)

lemma scroll_pass_after:
  "scroll_pass c ob st = Continue st' \<Longrightarrow>
   \<exists>h. scroll_height ob = Some h \<and> after_scroll c ob h st = Continue st'"
  by (auto simp: scroll_pass_def split: option.splits if_splits)

lemma finite_extract: "finite (extract_urls_from_page a)"
  by (simp add: extract_urls_from_page_def split: option.splits)

text \<open>The first two passes of the scenario, and the stop at the top of the third.\<close>

lemma scenario_first_pass:
  assumes "scroll_height o1 = Some h1" "h1 \<noteq> 0" "scroll_to_bottom o1"
      and "extract_urls_from_page (anchors o1) \<noteq> {}" "elapsed_seconds o1 \<le> scroll_timeout c"
  shows "scroll_pass c o1 scroll_start =
           Continue \<lparr>all_urls = extract_urls_from_page (anchors o1), prev_height = h1,
                     scroll_attempts = 0, scrolls = 1\<rparr>"
  using assms finite_extract[of "anchors o1"]
  by (simp add: scroll_pass_def after_scroll_def scroll_start_def Let_def)

lemma scenario_stalled_pass:
  assumes "scroll_height o2 = Some h2" "h2 \<noteq> prev_height st" "scroll_to_bottom o2"
      and "extract_urls_from_page (anchors o2) \<subseteq> all_urls st"
      and "elapsed_seconds o2 \<le> scroll_timeout c"
  shows "scroll_pass c o2 st =
           Continue \<lparr>all_urls = all_urls st, prev_height = h2,
                     scroll_attempts = scroll_attempts st + 2, scrolls = scrolls st + 1\<rparr>"
proof -
  from assms(4) have "extract_urls_from_page (anchors o2) - all_urls st = {}" by blast
  then have "card (extract_urls_from_page (anchors o2) - all_urls st) = 0"
    by (metis card.empty)
  moreover from assms(4) have "all_urls st \<union> extract_urls_from_page (anchors o2) = all_urls st"
    by blast
  ultimately show ?thesis using assms(1,2,3,5)
    by (simp add: scroll_pass_def after_scroll_def Let_def)
qed

lemma scenario_height_stop:
  assumes "scroll_height o3 = Some (prev_height st)"
      and "\<not> load_more_loop (load_more_buttons o3) load_more_patterns"
      and "scroll_height_after o3 = Some (prev_height st)"
  shows "scroll_pass c o3 st = Break st"
  using assms by (simp add: scroll_pass_def)

text \<open>
  C3, as the code has it. A pass that goes on and found new links leaves
  \<open>scroll_attempts\<close> at zero; a pass that goes on and found none adds two to it. On a
  page whose first scroll brings links, whose second scroll brings none, and whose
  height at the top of the third pass is the height at the top of the second (no
  load-more control changes it), the loop stops at the top of the third pass: after
  two scrolls, one of them without gain, with every link it extracted.
\<close>

theorem infinite_scroll_stall_counter:
  "(scroll_pass c ob st = Continue st' \<and>
      card (extract_urls_from_page (anchors ob) - all_urls st) \<noteq> 0
    \<longrightarrow> scroll_attempts st' = 0) \<and>
   (scroll_pass c ob st = Continue st' \<and>
      card (extract_urls_from_page (anchors ob) - all_urls st) = 0
    \<longrightarrow> scroll_attempts st' = scroll_attempts st + 2) \<and>
   (0 < max_scroll_attempts c \<and>
    scroll_height o1 = Some h1 \<and> h1 \<noteq> 0 \<and> scroll_to_bottom o1 \<and>
    extract_urls_from_page (anchors o1) \<noteq> {} \<and> elapsed_seconds o1 \<le> scroll_timeout c \<and>
    scroll_height o2 = Some h2 \<and> h2 \<noteq> h1 \<and> scroll_to_bottom o2 \<and>
    extract_urls_from_page (anchors o2) \<subseteq> extract_urls_from_page (anchors o1) \<and>
    elapsed_seconds o2 \<le> scroll_timeout c \<and>
    scroll_height o3 = Some h2 \<and> \<not> load_more_loop (load_more_buttons o3) load_more_patterns \<and>
    scroll_height_after o3 = Some h2
    \<longrightarrow> scroll_loop c (o1 # o2 # o3 # obs) scroll_start =
          Some \<lparr>all_urls = extract_urls_from_page (anchors o1), prev_height = h2,
                scroll_attempts = 2, scrolls = 2\<rparr>)"
proof (intro conjI impI)
  assume "scroll_pass c ob st = Continue st' \<and>
      card (extract_urls_from_page (anchors ob) - all_urls st) \<noteq> 0"
  then show "scroll_attempts st' = 0"
    using scroll_pass_after after_scroll_gain by blast
next
  assume "scroll_pass c ob st = Continue st' \<and>
      card (extract_urls_from_page (anchors ob) - all_urls st) = 0"
  then show "scroll_attempts st' = scroll_attempts st + 2"
    using scroll_pass_after after_scroll_stall by blast
next
  let ?E = "extract_urls_from_page (anchors o1)"
  let ?s1 = "\<lparr>all_urls = ?E, prev_height = h1, scroll_attempts = 0, scrolls = 1\<rparr>"
  let ?s2 = "\<lparr>all_urls = ?E, prev_height = h2, scroll_attempts = 2, scrolls = 2\<rparr>"
  assume h: "0 < max_scroll_attempts c \<and>
    scroll_height o1 = Some h1 \<and> h1 \<noteq> 0 \<and> scroll_to_bottom o1 \<and>
    extract_urls_from_page (anchors o1) \<noteq> {} \<and> elapsed_seconds o1 \<le> scroll_timeout c \<and>
    scroll_height o2 = Some h2 \<and> h2 \<noteq> h1 \<and> scroll_to_bottom o2 \<and>
    extract_urls_from_page (anchors o2) \<subseteq> extract_urls_from_page (anchors o1) \<and>
    elapsed_seconds o2 \<le> scroll_timeout c \<and>
    scroll_height o3 = Some h2 \<and> \<not> load_more_loop (load_more_buttons o3) load_more_patterns \<and>
    scroll_height_after o3 = Some h2"
  then have p1: "scroll_pass c o1 scroll_start = Continue ?s1"
    by (intro scenario_first_pass) auto
  from h have "scroll_pass c o2 ?s1 =
      Continue \<lparr>all_urls = all_urls ?s1, prev_height = h2,
                scroll_attempts = scroll_attempts ?s1 + 2, scrolls = scrolls ?s1 + 1\<rparr>"
    by (intro scenario_stalled_pass) auto
  then have p2: "scroll_pass c o2 ?s1 = Continue ?s2" by simp
  from h have p3: "scroll_pass c o3 ?s2 = Break ?s2"
    using scenario_height_stop[of o3 ?s2 c] by simp
  from h have m: "0 < max_scroll_attempts c" by simp
  show "scroll_loop c (o1 # o2 # o3 # obs) scroll_start = Some ?s2"
    using p1 p2 p3 m by (simp add: scroll_start_def)
qed

lemma catalog_extract:
  "extract_urls_from_page (Some (catalog_initial @ catalog_loaded))
     = set (catalog_initial @ catalog_loaded)"
  by code_simp

lemma catalog_pass_fields:
  "scroll_height (catalog_pass h s) = Some h" "scroll_height_after (catalog_pass h s) = Some h"
  "scroll_to_bottom (catalog_pass h s)" "elapsed_seconds (catalog_pass h s) = s"
  "anchors (catalog_pass h s) = Some (catalog_initial @ catalog_loaded)"
  "\<not> load_more_loop (load_more_buttons (catalog_pass h s)) load_more_patterns"
  by (simp_all add: catalog_pass_def load_more_patterns_def)

theorem infinite_scroll_stall_counter_witness:
  "scroll_pass amazon_in_crawler (catalog_pass 5000 1) scroll_start =
     Continue \<lparr>all_urls = set (catalog_initial @ catalog_loaded), prev_height = 5000,
               scroll_attempts = 0, scrolls = 1\<rparr> \<and>
   card (extract_urls_from_page (anchors (catalog_pass 5000 1)) - all_urls scroll_start) \<noteq> 0 \<and>
   scroll_pass amazon_in_crawler (catalog_pass 7400 2)
     \<lparr>all_urls = set (catalog_initial @ catalog_loaded), prev_height = 5000,
      scroll_attempts = 0, scrolls = 1\<rparr> =
     Continue \<lparr>all_urls = set (catalog_initial @ catalog_loaded), prev_height = 7400,
               scroll_attempts = 0 + 2, scrolls = 2\<rparr> \<and>
   scroll_loop amazon_in_crawler catalog_scroll scroll_start =
     Some \<lparr>all_urls = set (catalog_initial @ catalog_loaded), prev_height = 7400,
           scroll_attempts = 2, scrolls = 2\<rparr>"
proof -
  let ?c = amazon_in_crawler
  let ?E = "set (catalog_initial @ catalog_loaded)"
  let ?s1 = "\<lparr>all_urls = ?E, prev_height = 5000, scroll_attempts = 0, scrolls = 1\<rparr>"
  have cfg: "max_scroll_attempts ?c = 10" "scroll_timeout ?c = 30"
    by (simp_all add: amazon_in_crawler_def ecommerce_crawler_init_def)
  have ne: "?E \<noteq> {}" by (simp add: catalog_initial_def)
  have p1: "scroll_pass ?c (catalog_pass 5000 1) scroll_start = Continue ?s1"
    using scenario_first_pass[of "catalog_pass 5000 1" 5000 ?c] ne
    by (simp add: catalog_pass_fields catalog_extract cfg)
  have g: "card (extract_urls_from_page (anchors (catalog_pass 5000 1)) - all_urls scroll_start) \<noteq> 0"
    using ne by (simp add: catalog_pass_fields catalog_extract scroll_start_def)
  have p2: "scroll_pass ?c (catalog_pass 7400 2) ?s1 =
     Continue \<lparr>all_urls = ?E, prev_height = 7400, scroll_attempts = 0 + 2, scrolls = 2\<rparr>"
    using scenario_stalled_pass[of "catalog_pass 7400 2" 7400 ?s1 ?c]
    by (simp add: catalog_pass_fields catalog_extract cfg)
  have z: "card (extract_urls_from_page (anchors (catalog_pass 7400 2)) - all_urls ?s1) = 0"
    by (simp add: catalog_pass_fields catalog_extract)
  note t = infinite_scroll_stall_counter[of ?c "catalog_pass 5000 1" scroll_start ?s1
      "catalog_pass 5000 1" 5000 "catalog_pass 7400 2" 7400 "catalog_pass 7400 3"
      "[catalog_pass 7400 4]"]
  from t p1 g have a0: "scroll_attempts ?s1 = 0" by simp
  from t ne have l: "scroll_loop ?c catalog_scroll scroll_start =
     Some \<lparr>all_urls = ?E, prev_height = 7400, scroll_attempts = 2, scrolls = 2\<rparr>"
    by (simp add: catalog_pass_fields catalog_extract cfg catalog_scroll_def)
  from p1 g p2 l show ?thesis by simp
qed

text \<open>
  On the scenario page the loop does not go on to a second scroll without gain: it has
  scrolled twice when it stops, and it returns the two initial links and the 12 new ones.
\<close>

theorem infinite_scroll_stops_after_first_stall:
  "map_option scrolls (scroll_loop amazon_in_crawler catalog_scroll scroll_start) = Some 2 \<and>
   map_option scrolls (scroll_loop amazon_in_crawler catalog_scroll scroll_start) \<noteq> Some 3 \<and>
   handle_infinite_scroll amazon_in_crawler catalog_scroll
     = Some (set (catalog_initial @ catalog_loaded)) \<and>
   length catalog_loaded = 12"
proof -
  have ne: "set (catalog_initial @ catalog_loaded) \<noteq> {}" by (simp add: catalog_initial_def)
  have cfg: "max_scroll_attempts amazon_in_crawler = 10" "scroll_timeout amazon_in_crawler = 30"
    by (simp_all add: amazon_in_crawler_def ecommerce_crawler_init_def)
  have p1: "scroll_pass amazon_in_crawler (catalog_pass 5000 1) scroll_start = Continue
      \<lparr>all_urls = set (catalog_initial @ catalog_loaded), prev_height = 5000,
       scroll_attempts = 0, scrolls = 1\<rparr>"
    using scenario_first_pass[of "catalog_pass 5000 1" 5000 amazon_in_crawler] ne
    by (simp add: catalog_pass_fields catalog_extract cfg)
  have p2: "scroll_pass amazon_in_crawler (catalog_pass 7400 2)
      \<lparr>all_urls = set (catalog_initial @ catalog_loaded), prev_height = 5000,
       scroll_attempts = 0, scrolls = 1\<rparr> = Continue
      \<lparr>all_urls = set (catalog_initial @ catalog_loaded), prev_height = 7400,
       scroll_attempts = 2, scrolls = 2\<rparr>"
    using scenario_stalled_pass[of "catalog_pass 7400 2" 7400
        "\<lparr>all_urls = set (catalog_initial @ catalog_loaded), prev_height = 5000,
          scroll_attempts = 0, scrolls = 1\<rparr>" amazon_in_crawler]
    by (simp add: catalog_pass_fields catalog_extract cfg)
  have p3: "scroll_pass amazon_in_crawler (catalog_pass 7400 3)
      \<lparr>all_urls = set (catalog_initial @ catalog_loaded), prev_height = 7400,
       scroll_attempts = 2, scrolls = 2\<rparr> = Break
      \<lparr>all_urls = set (catalog_initial @ catalog_loaded), prev_height = 7400,
       scroll_attempts = 2, scrolls = 2\<rparr>"
    using scenario_height_stop[of "catalog_pass 7400 3"
        "\<lparr>all_urls = set (catalog_initial @ catalog_loaded), prev_height = 7400,
          scroll_attempts = 2, scrolls = 2\<rparr>" amazon_in_crawler]
    by (simp add: catalog_pass_fields)
  have "scroll_loop amazon_in_crawler catalog_scroll scroll_start = Some
      \<lparr>all_urls = set (catalog_initial @ catalog_loaded), prev_height = 7400,
       scroll_attempts = 2, scrolls = 2\<rparr>"
    using p1 p2 p3 by (simp add: catalog_scroll_def cfg scroll_start_def)
  then show ?thesis
    by (simp add: handle_infinite_scroll_def catalog_loaded_def)
qed

section \<open>The HTTP crawler (\<open>version2.py\<close>)\<close>

text \<open>
  The pattern lists of \<open>DomainCrawler\<close>. They are searched with \<open>re.IGNORECASE\<close>.
  \<open>product_patterns\<close>: \<open>/product[s]?/\<close>, \<open>/item/\<close>, \<open>/p/\<close>, \<open>/dp/\<close>.
\<close>

definition product_patterns :: "rexp list" where
  "product_patterns =
     [seqs [lit ''/product'', opt (Chr CHR ''s''), lit ''/''],
      lit ''/item/'', lit ''/p/'', lit ''/dp/'']"

text \<open>
  \<open>exclude_patterns\<close> as \<open>__init__\<close> writes them: \<open>/career[s]?\<close>, \<open>/contact[-]?us\<close>,
  \<open>/about[-]?us\<close>, the literal paths from \<open>/login\<close> to \<open>/help\<close>, \<open>/payment[s]?\<close>,
  \<open>/order[s]?\<close>, the literal paths from \<open>/viewcart\<close> to \<open>/events\<close>, \<open>/offer[s]?\<close> and
  \<open>/footer\<close>.
\<close>

definition base_exclude_patterns :: "rexp list" where
  "base_exclude_patterns =
     [seqs [lit ''/career'', opt (Chr CHR ''s'')],
      seqs [lit ''/contact'', opt (Chr CHR ''-''), lit ''us''],
      seqs [lit ''/about'', opt (Chr CHR ''-''), lit ''us''],
      lit ''/login'', lit ''/cart'', lit ''/checkout'', lit ''/account'', lit ''/search'',
      lit ''/privacy'', lit ''/terms'', lit ''/refund'', lit ''/faq'', lit ''/help'',
      seqs [lit ''/payment'', opt (Chr CHR ''s'')],
      seqs [lit ''/order'', opt (Chr CHR ''s'')],
      lit ''/viewcart'', lit ''/wishlist'', lit ''/track'', lit ''/signin'', lit ''/signup'',
      lit ''/register'', lit ''/signout'', lit ''/unsubscribe'', lit ''/download'',
      lit ''/support'', lit ''/forum'', lit ''/blog'', lit ''/news'', lit ''/article'',
      lit ''/gallery'', lit ''/media'', lit ''/stories'', lit ''/press'', lit ''/events'',
      seqs [lit ''/offer'', opt (Chr CHR ''s'')],
      lit ''/footer'']"

text \<open>
  \<open>domain_specific_exclude_patterns\<close>. In the \<open>amazon.in\<close> list the source has no comma
  between \<open>r'/b/'\<close> and \<open>r'/b\?node='\<close>, so Python joins the two literals into the one
  pattern \<open>/b//b\?node=\<close>.
\<close>

definition domain_specific_exclude_patterns :: "(string \<times> rexp list) list" where
  "domain_specific_exclude_patterns =
     [(''amazon.in'',
        [lit ''/gp/'', lit ''/s?'', lit ''/b//b?node='', lit ''/prime'',
         lit ''/customer-preferences'', lit ''/minitv'', lit ''/business'', lit ''/now'',
         lit ''/fresh'', lit ''/deliveries'']),
      (''flipkart.com'',
        [lit ''/q/'', lit ''gift-card-store'', lit ''/returnpolicy'', lit ''/helpcentre'',
         lit ''/payments'', lit ''/paymentsecurity'', lit ''/shipping'', lit ''/terms'',
         lit ''/plus'', lit ''/wishlist''])]"

text \<open>
  \<open>DomainCrawler\<close>. The field \<open>product_urls\<close> of the source is \<open>found_urls\<close> here,
  since the browser crawler's record has a field of that name.
\<close>

record domain_crawler =
  domain :: string
  domain_name :: string
  max_urls :: int
  max_depth :: int
  visited_urls :: "string set"
  found_urls :: "string set"
  exclude_patterns :: "rexp list"

definition domain_crawler_init :: "string \<Rightarrow> int \<Rightarrow> int \<Rightarrow> domain_crawler" where
  "domain_crawler_init d mu md =
     \<lparr>domain = d, domain_name = netloc (urlparse d), max_urls = mu, max_depth = md,
      visited_urls = {}, found_urls = {},
      exclude_patterns =
        base_exclude_patterns @
        (case map_of domain_specific_exclude_patterns (netloc (urlparse d)) of
           Some ps \<Rightarrow> ps
         | None \<Rightarrow> [])\<rparr>"

definition is_product_url :: "string \<Rightarrow> bool" where
  "is_product_url url = any_search_ignorecase product_patterns url"

definition should_exclude_url :: "domain_crawler \<Rightarrow> string \<Rightarrow> bool" where
  "should_exclude_url c url = any_search_ignorecase (exclude_patterns c) url"

text \<open>\<open>get_url_depth\<close>: the number of non-empty segments of the path.\<close>

definition get_url_depth :: "string \<Rightarrow> int" where
  "get_url_depth url =
     int (length (filter (\<lambda>x. x \<noteq> []) (split_on CHR ''/'' (path (urlparse url)))))"

text \<open>
  The part of \<open>crawl_url\<close> before the request: the three guards, then
  \<open>self.visited_urls.add(url)\<close>. \<open>None\<close> is an early \<open>return\<close>.
\<close>

definition admit :: "domain_crawler \<Rightarrow> string \<Rightarrow> domain_crawler option" where
  "admit c url =
     (if url \<in> visited_urls c \<or> should_exclude_url c url then None
      else if int (card (found_urls c)) \<ge> max_urls c then None
      else if get_url_depth url > max_depth c then None
      else Some (c\<lparr>visited_urls := insert url (visited_urls c)\<rparr>))"

text \<open>
  What \<open>session.get(url)\<close> brings: status 200 with the links of the page, another
  status, or an exception. The links are the list \<open>links\<close> of the source (from the
  parsed HTML, or from \<open>handle_dynamic_content\<close> for a JavaScript content type), each
  one already resolved by \<open>urljoin(self.domain, link)\<close>.
\<close>

datatype response = Ok200 "string list" | Status int | GetRaises

text \<open>
  The \<open>for link in links\<close> loop: it stops at the limit of product URLs, records a
  same-host link that looks like a product, and collects a \<open>crawl_url\<close> call for a
  same-host link that does not and is not visited. The second component lists the
  URLs of the collected calls in order.
\<close>

fun process_links :: "domain_crawler \<Rightarrow> string list \<Rightarrow> domain_crawler \<times> string list" where
  "process_links c [] = (c, [])"
| "process_links c (absolute_url # links) =
     (if int (card (found_urls c)) \<ge> max_urls c then (c, [])
      else if netloc (urlparse absolute_url) = netloc (urlparse (domain c))
           then (if is_product_url absolute_url
                 then process_links (c\<lparr>found_urls := insert absolute_url (found_urls c)\<rparr>) links
                 else if absolute_url \<notin> visited_urls c
                      then (case process_links c links of
                              (c', tasks) \<Rightarrow> (c', absolute_url # tasks))
                      else process_links c links)
           else process_links c links)"

text \<open>
  The crawl under \<open>asyncio\<close>. A \<open>crawl_url\<close> call runs without interruption from its
  entry to \<open>session.get\<close>, and again from the arrival of the response to
  \<open>asyncio.gather\<close>; between the two, other calls run. The state of a crawl is the
  crawler, the calls that were created and have not started (in creation order), and
  the calls that wait for their response.

  Two components are not in the source. Each call carries the number of links
  followed from the entry point to reach it, and \<open>fetched\<close> lists the URLs handed to
  \<open>session.get\<close> with that number.
\<close>

record crawl =
  crawler :: domain_crawler
  ready :: "(string \<times> nat) list"
  awaiting :: "(string \<times> nat) list"
  fetched :: "(string \<times> nat) list"

text \<open>\<open>start\<close> calls \<open>crawl_url(self.domain)\<close>.\<close>

definition crawl_start :: "domain_crawler \<Rightarrow> crawl" where
  "crawl_start c = \<lparr>crawler = c, ready = [(domain c, 0)], awaiting = [], fetched = []\<rparr>"

text \<open>
  \<open>Start\<close>: the oldest call that has not started runs up to its request.
  \<open>Respond i\<close>: the \<open>i\<close>-th waiting call receives its response and runs up to
  \<open>gather\<close>, which creates the calls for the links it collected.
\<close>

datatype event = Start | Respond nat

definition start_call :: "crawl \<Rightarrow> crawl" where
  "start_call k =
     (case ready k of
        [] \<Rightarrow> k
      | (url, d) # rest \<Rightarrow>
          (case admit (crawler k) url of
             None \<Rightarrow> k\<lparr>ready := rest\<rparr>
           | Some c' \<Rightarrow>
               k\<lparr>crawler := c', ready := rest, awaiting := awaiting k @ [(url, d)],
                 fetched := fetched k @ [(url, d)]\<rparr>))"

definition respond :: "(string \<Rightarrow> response) \<Rightarrow> nat \<Rightarrow> crawl \<Rightarrow> crawl" where
  "respond web i k =
     (if i < length (awaiting k)
      then (case awaiting k ! i of
              (url, d) \<Rightarrow>
                (case web url of
                   Ok200 links \<Rightarrow>
                     (case process_links (crawler k) links of
                        (c', tasks) \<Rightarrow>
                          k\<lparr>crawler := c',
                            ready := ready k @ map (\<lambda>u. (u, Suc d)) tasks,
                            awaiting := take i (awaiting k) @ drop (Suc i) (awaiting k)\<rparr>)
                 | Status s \<Rightarrow> k\<lparr>awaiting := take i (awaiting k) @ drop (Suc i) (awaiting k)\<rparr>
                 | GetRaises \<Rightarrow> k\<lparr>awaiting := take i (awaiting k) @ drop (Suc i) (awaiting k)\<rparr>))
      else k)"

fun step :: "(string \<Rightarrow> response) \<Rightarrow> crawl \<Rightarrow> event \<Rightarrow> crawl" where
  "step web k Start = start_call k"
| "step web k (Respond i) = respond web i k"

text \<open>
  The state after a sequence of events. Every prefix of a schedule is a schedule, so a
  statement about all \<open>run web evs\<close> is a statement about every observation point.
\<close>

definition run :: "(string \<Rightarrow> response) \<Rightarrow> event list \<Rightarrow> crawl \<Rightarrow> crawl" where
  "run web evs k = foldl (step web) k evs"

text \<open>
  Three small shops. In the first the entry page links to two pages that answer 404; in
  the second it links to one product page; in the third the pages form a chain
  \<open>a\<close>, \<open>b\<close>, \<open>c\<close> below the entry page.
\<close>

definition two_pages :: "string \<Rightarrow> response" where
  "two_pages url =
     (if url = ''https://shop.example''
      then Ok200 [''https://shop.example/catalog'', ''https://shop.example/sale'']
      else Status 404)"

definition one_product :: "string \<Rightarrow> response" where
  "one_product url =
     (if url = ''https://shop.example'' then Ok200 [''https://shop.example/p/1'']
      else Status 404)"

definition chain :: "string \<Rightarrow> response" where
  "chain url =
     (if url = ''https://shop.example'' then Ok200 [''https://shop.example/a'']
      else if url = ''https://shop.example/a'' then Ok200 [''https://shop.example/b'']
      else if url = ''https://shop.example/b'' then Ok200 [''https://shop.example/c'']
      else Status 404)"

section \<open>The HTTP crawler: what every reachable state satisfies\<close>

lemma admit_Some:
  "admit c url = Some c' \<Longrightarrow>
     visited_urls c' = insert url (visited_urls c) \<and> found_urls c' = found_urls c \<and>
     domain c' = domain c \<and> max_urls c' = max_urls c \<and> max_depth c' = max_depth c \<and>
     exclude_patterns c' = exclude_patterns c \<and>
     url \<notin> visited_urls c \<and> \<not> should_exclude_url c url \<and>
     int (card (found_urls c)) < max_urls c \<and> get_url_depth url \<le> max_depth c"
  by (auto simp: admit_def split: if_splits)

lemma process_links_cases:
  assumes "process_links c (u # ls) = (c', ts)"
  obtains
    (limit) "max_urls c \<le> int (card (found_urls c))" "c' = c" "ts = []"
  | (product) "\<not> max_urls c \<le> int (card (found_urls c))"
      "netloc (urlparse u) = netloc (urlparse (domain c))" "is_product_url u"
      "process_links (c\<lparr>found_urls := insert u (found_urls c)\<rparr>) ls = (c', ts)"
  | (task) ts' where "\<not> max_urls c \<le> int (card (found_urls c))"
      "netloc (urlparse u) = netloc (urlparse (domain c))" "\<not> is_product_url u"
      "u \<notin> visited_urls c" "process_links c ls = (c', ts')" "ts = u # ts'"
  | (seen) "\<not> max_urls c \<le> int (card (found_urls c))"
      "netloc (urlparse u) = netloc (urlparse (domain c))" "\<not> is_product_url u"
      "\<not> u \<notin> visited_urls c" "process_links c ls = (c', ts)"
  | (other) "\<not> max_urls c \<le> int (card (found_urls c))"
      "netloc (urlparse u) \<noteq> netloc (urlparse (domain c))" "process_links c ls = (c', ts)"
proof (cases "max_urls c \<le> int (card (found_urls c))")
  case True
  with assms have "c' = c" "ts = []" by auto
  with True show ?thesis by (rule limit)
next
  case lim: False
  show ?thesis
  proof (cases "netloc (urlparse u) = netloc (urlparse (domain c))")
    case False
    with lim assms have "process_links c ls = (c', ts)" by simp
    with lim False show ?thesis by (rule other)
  next
    case host: True
    show ?thesis
    proof (cases "is_product_url u")
      case True
      with lim host assms
      have "process_links (c\<lparr>found_urls := insert u (found_urls c)\<rparr>) ls = (c', ts)" by simp
      with lim host True show ?thesis by (rule product)
    next
      case np: False
      show ?thesis
      proof (cases "u \<notin> visited_urls c")
        case True
        obtain c'' ts' where r: "process_links c ls = (c'', ts')" by (cases "process_links c ls")
        with lim host np True assms have "c'' = c'" "ts = u # ts'" by auto
        with r have "process_links c ls = (c', ts')" by simp
        with lim host np True show ?thesis using \<open>ts = u # ts'\<close> by (rule task)
      next
        case False
        with lim host np assms have "process_links c ls = (c', ts)" by simp
        with lim host np False show ?thesis by (rule seen)
      qed
    qed
  qed
qed

lemma process_links_settings:
  "process_links c ls = (c', ts) \<Longrightarrow>
   visited_urls c' = visited_urls c \<and> domain c' = domain c \<and> max_urls c' = max_urls c \<and>
   max_depth c' = max_depth c \<and> exclude_patterns c' = exclude_patterns c"
proof (induction c ls arbitrary: c' ts rule: process_links.induct)
  case (1 c)
  then show ?case by auto
next
  case (2 c u ls)
  from "2.prems" show ?case
  proof (cases rule: process_links_cases)
    case limit
    then show ?thesis by simp
  next
    case product
    from "2.IH"(1)[OF product] show ?thesis by simp
  next
    case (task ts')
    from "2.IH"(2)[OF task(1,2,3,4,5)] show ?thesis .
  next
    case seen
    from "2.IH"(3)[OF seen] show ?thesis .
  next
    case other
    from "2.IH"(4)[OF other] show ?thesis .
  qed
qed

lemma process_links_bound:
  "process_links c ls = (c', ts) \<Longrightarrow> finite (found_urls c) \<Longrightarrow>
   int (card (found_urls c)) \<le> max 0 (max_urls c) \<Longrightarrow>
   finite (found_urls c') \<and> int (card (found_urls c')) \<le> max 0 (max_urls c)"
proof (induction c ls arbitrary: c' ts rule: process_links.induct)
  case (1 c)
  then show ?case by auto
next
  case (2 c u ls)
  from "2.prems"(1) show ?case
  proof (cases rule: process_links_cases)
    case limit
    with "2.prems" show ?thesis by simp
  next
    case product
    let ?c1 = "c\<lparr>found_urls := insert u (found_urls c)\<rparr>"
    have fin1: "finite (found_urls ?c1)" using "2.prems"(2) by simp
    have grow: "int (card (found_urls ?c1)) \<le> max 0 (max_urls ?c1)"
      using product(1) "2.prems"(2) by (simp add: card_insert_if)
    from "2.IH"(1)[OF product fin1 grow] show ?thesis by simp
  next
    case (task ts')
    from "2.IH"(2)[OF task(1,2,3,4,5) "2.prems"(2,3)] show ?thesis .
  next
    case seen
    from "2.IH"(3)[OF seen "2.prems"(2,3)] show ?thesis .
  next
    case other
    from "2.IH"(4)[OF other "2.prems"(2,3)] show ?thesis .
  qed
qed

lemma process_links_origin:
  "process_links c ls = (c', ts) \<Longrightarrow> p \<in> found_urls c' \<Longrightarrow>
   p \<in> found_urls c \<or>
   (p \<in> set ls \<and> is_product_url p \<and> netloc (urlparse p) = netloc (urlparse (domain c)))"
proof (induction c ls arbitrary: c' ts rule: process_links.induct)
  case (1 c)
  then show ?case by auto
next
  case (2 c u ls)
  from "2.prems"(1) show ?case
  proof (cases rule: process_links_cases)
    case limit
    with "2.prems" show ?thesis by simp
  next
    case product
    from "2.IH"(1)[OF product "2.prems"(2)] product(2,3) show ?thesis by auto
  next
    case (task ts')
    from "2.IH"(2)[OF task(1,2,3,4,5) "2.prems"(2)] show ?thesis by auto
  next
    case seen
    from "2.IH"(3)[OF seen "2.prems"(2)] show ?thesis by auto
  next
    case other
    from "2.IH"(4)[OF other "2.prems"(2)] show ?thesis by auto
  qed
qed

lemma process_links_tasks:
  "process_links c ls = (c', ts) \<Longrightarrow> set ts \<subseteq> set ls"
proof (induction c ls arbitrary: c' ts rule: process_links.induct)
  case (1 c)
  then show ?case by auto
next
  case (2 c u ls)
  from "2.prems"(1) show ?case
  proof (cases rule: process_links_cases)
    case limit
    then show ?thesis by simp
  next
    case product
    from "2.IH"(1)[OF product] show ?thesis by auto
  next
    case (task ts')
    from "2.IH"(2)[OF task(1,2,3,4,5)] task(6) show ?thesis by auto
  next
    case seen
    from "2.IH"(3)[OF seen] show ?thesis by auto
  next
    case other
    from "2.IH"(4)[OF other] show ?thesis by auto
  qed
qed

lemma process_links_keeps:
  "process_links c ls = (c', ts) \<Longrightarrow> found_urls c \<subseteq> found_urls c'"
proof (induction c ls arbitrary: c' ts rule: process_links.induct)
  case (1 c)
  then show ?case by auto
next
  case (2 c u ls)
  from "2.prems"(1) show ?case
  proof (cases rule: process_links_cases)
    case limit
    then show ?thesis by simp
  next
    case product
    from "2.IH"(1)[OF product] show ?thesis by auto
  next
    case (task ts')
    from "2.IH"(2)[OF task(1,2,3,4,5)] show ?thesis .
  next
    case seen
    from "2.IH"(3)[OF seen] show ?thesis .
  next
    case other
    from "2.IH"(4)[OF other] show ?thesis .
  qed
qed

text \<open>
  The invariant of the crawl that started from \<open>c0\<close> on the web \<open>web\<close>, in parts. The
  settings are those of \<open>c0\<close>. The product URLs are finitely many and within the limit,
  and each is a same-host link with a product pattern on a visited page that answered
  200. No visited URL is excluded or deeper (in path segments) than allowed. The
  visited URLs are the fetched ones, and a waiting call has a visited URL.
\<close>

definition inv_settings :: "domain_crawler \<Rightarrow> domain_crawler \<Rightarrow> bool" where
  "inv_settings c0 c =
     (domain c = domain c0 \<and> max_urls c = max_urls c0 \<and> max_depth c = max_depth c0 \<and>
      exclude_patterns c = exclude_patterns c0)"

definition inv_found :: "(string \<Rightarrow> response) \<Rightarrow> domain_crawler \<Rightarrow> domain_crawler \<Rightarrow> bool" where
  "inv_found web c0 c =
     (finite (found_urls c) \<and> int (card (found_urls c)) \<le> max 0 (max_urls c0) \<and>
      (\<forall>p \<in> found_urls c.
         is_product_url p \<and> netloc (urlparse p) = netloc (urlparse (domain c0)) \<and>
         (\<exists>u \<in> visited_urls c. \<exists>links. web u = Ok200 links \<and> p \<in> set links)))"

definition inv_visited :: "domain_crawler \<Rightarrow> domain_crawler \<Rightarrow> bool" where
  "inv_visited c0 c =
     (\<forall>u \<in> visited_urls c. \<not> should_exclude_url c0 u \<and> get_url_depth u \<le> max_depth c0)"

definition crawl_inv :: "(string \<Rightarrow> response) \<Rightarrow> domain_crawler \<Rightarrow> crawl \<Rightarrow> bool" where
  "crawl_inv web c0 k =
     (inv_settings c0 (crawler k) \<and> inv_found web c0 (crawler k) \<and> inv_visited c0 (crawler k) \<and>
      visited_urls (crawler k) = fst ` set (fetched k) \<and>
      fst ` set (awaiting k) \<subseteq> visited_urls (crawler k))"

lemma crawl_invD:
  assumes "crawl_inv web c0 k"
  shows "inv_settings c0 (crawler k)" and "inv_found web c0 (crawler k)"
    and "inv_visited c0 (crawler k)"
    and "visited_urls (crawler k) = fst ` set (fetched k)"
    and "fst ` set (awaiting k) \<subseteq> visited_urls (crawler k)"
  using assms unfolding crawl_inv_def by blast+

lemma crawl_invI:
  assumes "inv_settings c0 (crawler k)" and "inv_found web c0 (crawler k)"
    and "inv_visited c0 (crawler k)"
    and "visited_urls (crawler k) = fst ` set (fetched k)"
    and "fst ` set (awaiting k) \<subseteq> visited_urls (crawler k)"
  shows "crawl_inv web c0 k"
  using assms unfolding crawl_inv_def by blast

lemma crawl_inv_ready: "crawl_inv web c0 (k\<lparr>ready := r\<rparr>) = crawl_inv web c0 k"
  by (simp add: crawl_inv_def)

lemma crawl_inv_start:
  "visited_urls c0 = {} \<Longrightarrow> found_urls c0 = {} \<Longrightarrow> crawl_inv web c0 (crawl_start c0)"
  by (simp add: crawl_inv_def crawl_start_def inv_settings_def inv_found_def inv_visited_def)

lemma crawl_inv_start_call:
  assumes inv: "crawl_inv web c0 k"
  shows "crawl_inv web c0 (start_call k)"
proof (cases "ready k")
  case Nil
  with inv show ?thesis by (simp add: start_call_def)
next
  case (Cons t rest)
  obtain url d where t: "t = (url, d)" by (cases t)
  show ?thesis
  proof (cases "admit (crawler k) url")
    case None
    with Cons t have "start_call k = k\<lparr>ready := rest\<rparr>" by (simp add: start_call_def)
    with inv show ?thesis by (simp add: crawl_inv_ready)
  next
    case (Some c')
    note a = admit_Some[OF Some]
    from inv have set0: "inv_settings c0 (crawler k)" and fnd0: "inv_found web c0 (crawler k)"
      and vis0: "inv_visited c0 (crawler k)"
      and fet0: "visited_urls (crawler k) = fst ` set (fetched k)"
      and awa0: "fst ` set (awaiting k) \<subseteq> visited_urls (crawler k)"
      by (rule crawl_invD)+
    from a set0 have ok0: "\<not> should_exclude_url c0 url" "get_url_depth url \<le> max_depth c0"
      by (simp_all add: should_exclude_url_def inv_settings_def)
    have k': "start_call k = k\<lparr>crawler := c', ready := rest, awaiting := awaiting k @ [(url, d)],
                 fetched := fetched k @ [(url, d)]\<rparr>"
      using Cons t Some by (simp add: start_call_def)
    have v: "visited_urls c' = insert url (visited_urls (crawler k))" using a by simp
    have f: "found_urls c' = found_urls (crawler k)" using a by simp
    have 1: "inv_settings c0 c'" using a set0 by (simp add: inv_settings_def)
    have 2: "inv_found web c0 c'"
      using fnd0 unfolding inv_found_def v f by blast
    have 3: "inv_visited c0 c'"
      using vis0 ok0 unfolding inv_visited_def v by blast
    have 4: "visited_urls c' = fst ` set (fetched k @ [(url, d)])"
      unfolding v fet0 by auto
    have 5: "fst ` set (awaiting k @ [(url, d)]) \<subseteq> visited_urls c'"
      unfolding v using awa0 by auto
    show ?thesis
      unfolding k' using 1 2 3 4 5 by (intro crawl_invI) simp_all
  qed
qed

lemma in_set_remove_nth: "x \<in> set (take i xs @ drop (Suc i) xs) \<Longrightarrow> x \<in> set xs"
  by (auto dest: in_set_takeD in_set_dropD)

lemma crawl_inv_respond:
  assumes inv: "crawl_inv web c0 k"
  shows "crawl_inv web c0 (respond web i k)"
proof (cases "i < length (awaiting k)")
  case False
  with inv show ?thesis by (simp add: respond_def)
next
  case True
  obtain url d where t: "awaiting k ! i = (url, d)" by (cases "awaiting k ! i")
  let ?rest = "take i (awaiting k) @ drop (Suc i) (awaiting k)"
  from inv have set0: "inv_settings c0 (crawler k)" and fnd0: "inv_found web c0 (crawler k)"
    and vis0: "inv_visited c0 (crawler k)"
    and fet0: "visited_urls (crawler k) = fst ` set (fetched k)"
    and awa0: "fst ` set (awaiting k) \<subseteq> visited_urls (crawler k)"
    by (rule crawl_invD)+
  have rest: "fst ` set ?rest \<subseteq> visited_urls (crawler k)"
    using awa0 in_set_remove_nth[of _ i "awaiting k"] by blast
  have url: "url \<in> visited_urls (crawler k)"
  proof -
    from True t have "(url, d) \<in> set (awaiting k)" by (metis nth_mem)
    then have "url \<in> fst ` set (awaiting k)" by force
    with awa0 show ?thesis by blast
  qed
  have shrink: "crawl_inv web c0 (k\<lparr>awaiting := ?rest\<rparr>)"
    using set0 fnd0 vis0 fet0 rest by (intro crawl_invI) simp_all
  show ?thesis
  proof (cases "web url")
    case (Status s)
    with True t have "respond web i k = k\<lparr>awaiting := ?rest\<rparr>" by (simp add: respond_def)
    with shrink show ?thesis by simp
  next
    case GetRaises
    with True t have "respond web i k = k\<lparr>awaiting := ?rest\<rparr>" by (simp add: respond_def)
    with shrink show ?thesis by simp
  next
    case (Ok200 links)
    obtain c' tasks where pl: "process_links (crawler k) links = (c', tasks)"
      by (cases "process_links (crawler k) links")
    have k': "respond web i k =
        k\<lparr>crawler := c', ready := ready k @ map (\<lambda>u. (u, Suc d)) tasks, awaiting := ?rest\<rparr>"
      using True t Ok200 pl by (simp add: respond_def)
    note s = process_links_settings[OF pl]
    have v: "visited_urls c' = visited_urls (crawler k)" using s by simp
    have 1: "inv_settings c0 c'" using s set0 by (simp add: inv_settings_def)
    have fin: "finite (found_urls (crawler k))"
      and bnd: "int (card (found_urls (crawler k))) \<le> max 0 (max_urls (crawler k))"
      using fnd0 set0 by (simp_all add: inv_found_def inv_settings_def)
    from process_links_bound[OF pl fin bnd] set0
    have b: "finite (found_urls c')" "int (card (found_urls c')) \<le> max 0 (max_urls c0)"
      by (simp_all add: inv_settings_def)
    have o: "is_product_url p \<and> netloc (urlparse p) = netloc (urlparse (domain c0)) \<and>
         (\<exists>u \<in> visited_urls c'. \<exists>links. web u = Ok200 links \<and> p \<in> set links)"
      if p: "p \<in> found_urls c'" for p
    proof -
      from process_links_origin[OF pl p] consider
          "p \<in> found_urls (crawler k)"
        | "p \<in> set links" "is_product_url p"
          "netloc (urlparse p) = netloc (urlparse (domain (crawler k)))"
        by blast
      then show ?thesis
      proof cases
        case 1
        with fnd0 show ?thesis unfolding inv_found_def v by blast
      next
        case 2
        from set0 have "domain (crawler k) = domain c0" by (simp add: inv_settings_def)
        with 2 url Ok200 show ?thesis unfolding v by auto
      qed
    qed
    have 2: "inv_found web c0 c'" unfolding inv_found_def using b o by blast
    have 3: "inv_visited c0 c'" using vis0 unfolding inv_visited_def v .
    have 4: "visited_urls c' = fst ` set (fetched k)" unfolding v by (rule fet0)
    have 5: "fst ` set ?rest \<subseteq> visited_urls c'" unfolding v by (rule rest)
    show ?thesis
      unfolding k' using 1 2 3 4 5 by (intro crawl_invI) simp_all
  qed
qed

lemma crawl_inv_step: "crawl_inv web c0 k \<Longrightarrow> crawl_inv web c0 (step web k e)"
  by (cases e) (simp_all add: crawl_inv_start_call crawl_inv_respond)

lemma crawl_inv_run: "crawl_inv web c0 k \<Longrightarrow> crawl_inv web c0 (run web evs k)"
  unfolding run_def by (induction evs arbitrary: k) (simp_all add: crawl_inv_step)

lemma crawl_inv_reachable:
  "crawl_inv web (domain_crawler_init d mu md)
     (run web evs (crawl_start (domain_crawler_init d mu md)))"
  by (intro crawl_inv_run crawl_inv_start) (simp_all add: domain_crawler_init_def)

text \<open>The crawls of the three small shops, each run until no call is left.\<close>

definition two_pages_crawl :: crawl where
  "two_pages_crawl =
     run two_pages [Start, Respond 0, Start, Start, Respond 0, Respond 0]
       (crawl_start (domain_crawler_init ''https://shop.example'' 1 10))"

definition one_product_crawl :: crawl where
  "one_product_crawl =
     run one_product [Start, Respond 0]
       (crawl_start (domain_crawler_init ''https://shop.example'' 10 10))"

definition chain_crawl :: crawl where
  "chain_crawl =
     run chain [Start, Respond 0, Start, Respond 0, Start, Respond 0, Start, Respond 0]
       (crawl_start (domain_crawler_init ''https://shop.example'' 10 1))"

lemma two_pages_crawl_state:
  "two_pages_crawl =
     \<lparr>crawler = (domain_crawler_init ''https://shop.example'' 1 10)
        \<lparr>visited_urls := {''https://shop.example'', ''https://shop.example/catalog'',
                           ''https://shop.example/sale''}\<rparr>,
      ready = [], awaiting = [],
      fetched = [(''https://shop.example'', 0), (''https://shop.example/catalog'', 1),
                 (''https://shop.example/sale'', 1)]\<rparr>"
  by code_simp

lemma one_product_crawl_state:
  "one_product_crawl =
     \<lparr>crawler = (domain_crawler_init ''https://shop.example'' 10 10)
        \<lparr>visited_urls := {''https://shop.example''},
         found_urls := {''https://shop.example/p/1''}\<rparr>,
      ready = [], awaiting = [],
      fetched = [(''https://shop.example'', 0)]\<rparr>"
  by code_simp

lemma chain_crawl_state:
  "chain_crawl =
     \<lparr>crawler = (domain_crawler_init ''https://shop.example'' 10 1)
        \<lparr>visited_urls := {''https://shop.example'', ''https://shop.example/a'',
                           ''https://shop.example/b'', ''https://shop.example/c''}\<rparr>,
      ready = [], awaiting = [],
      fetched = [(''https://shop.example'', 0), (''https://shop.example/a'', 1),
                 (''https://shop.example/b'', 2), (''https://shop.example/c'', 3)]\<rparr>"
  by code_simp

lemma domain_crawler_init_fields:
  "domain (domain_crawler_init d mu md) = d" "max_urls (domain_crawler_init d mu md) = mu"
  "max_depth (domain_crawler_init d mu md) = md" "visited_urls (domain_crawler_init d mu md) = {}"
  "found_urls (domain_crawler_init d mu md) = {}"
  by (simp_all add: domain_crawler_init_def)

lemma two_pages_crawl_result:
  "visited_urls (crawler two_pages_crawl) =
     {''https://shop.example'', ''https://shop.example/catalog'', ''https://shop.example/sale''}"
  "found_urls (crawler two_pages_crawl) = {}"
  "max_urls (crawler two_pages_crawl) = 1"
  "ready two_pages_crawl = []" "awaiting two_pages_crawl = []"
  by (simp_all add: two_pages_crawl_state domain_crawler_init_fields)

lemma one_product_crawl_result:
  "visited_urls (crawler one_product_crawl) = {''https://shop.example''}"
  "found_urls (crawler one_product_crawl) = {''https://shop.example/p/1''}"
  "fetched one_product_crawl = [(''https://shop.example'', 0)]"
  "ready one_product_crawl = []" "awaiting one_product_crawl = []"
  by (simp_all add: one_product_crawl_state domain_crawler_init_fields)

lemma chain_crawl_result:
  "visited_urls (crawler chain_crawl) =
     {''https://shop.example'', ''https://shop.example/a'', ''https://shop.example/b'',
      ''https://shop.example/c''}"
  "fetched chain_crawl =
     [(''https://shop.example'', 0), (''https://shop.example/a'', 1),
      (''https://shop.example/b'', 2), (''https://shop.example/c'', 3)]"
  "max_depth (crawler chain_crawl) = 1"
  "ready chain_crawl = []" "awaiting chain_crawl = []"
  by (simp_all add: chain_crawl_state domain_crawler_init_fields)

lemma shop_depths:
  "get_url_depth ''https://shop.example'' = 0"
  "get_url_depth ''https://shop.example/c'' = 1"
  by code_simp+

text \<open>
  In \<open>version2.py\<close> no visited URL is excluded by the patterns of the crawler:
  \<open>crawl_url\<close> tests \<open>should_exclude_url\<close> before it adds the URL to \<open>visited_urls\<close>.
\<close>

lemma visited_not_excluded:
  assumes "u \<in> visited_urls (crawler (run web evs (crawl_start (domain_crawler_init d mu md))))"
  shows "\<not> should_exclude_url (domain_crawler_init d mu md) u"
  using crawl_invD(3)[OF crawl_inv_reachable[of web d mu md evs]] assms
  unfolding inv_visited_def by blast

text \<open>
  C2, as the code has it. \<open>max_urls\<close> limits the product URLs, not the visited ones:
  at every observation point the number of product URLs is at most \<open>max_urls\<close> (at
  most 0 when the limit is negative), and a URL is admitted to the visited set only
  while the number of product URLs is below the limit.
\<close>

theorem found_urls_within_limit:
  "int (card (found_urls (crawler (run web evs (crawl_start (domain_crawler_init d mu md))))))
     \<le> max 0 mu \<and>
   (admit (crawler (run web evs (crawl_start (domain_crawler_init d mu md)))) url = Some c'
    \<longrightarrow> int (card (found_urls (crawler (run web evs (crawl_start (domain_crawler_init d mu md))))))
          < mu)"
proof -
  define k where "k = run web evs (crawl_start (domain_crawler_init d mu md))"
  have inv: "crawl_inv web (domain_crawler_init d mu md) k"
    unfolding k_def by (rule crawl_inv_reachable)
  from crawl_invD(2)[OF inv]
  have "int (card (found_urls (crawler k))) \<le> max 0 (max_urls (domain_crawler_init d mu md))"
    unfolding inv_found_def by blast
  then have b: "int (card (found_urls (crawler k))) \<le> max 0 mu"
    by (simp only: domain_crawler_init_fields)
  from crawl_invD(1)[OF inv]
  have "max_urls (crawler k) = max_urls (domain_crawler_init d mu md)"
    unfolding inv_settings_def by blast
  then have m: "max_urls (crawler k) = mu" by (simp only: domain_crawler_init_fields)
  have "admit (crawler k) url = Some c' \<longrightarrow> int (card (found_urls (crawler k))) < mu"
    using admit_Some[of "crawler k" url c'] m by auto
  with b show ?thesis unfolding k_def by blast
qed

theorem found_urls_within_limit_witness:
  "int (card (found_urls (crawler one_product_crawl))) \<le> max 0 10 \<and>
   admit (crawler one_product_crawl) ''https://shop.example/catalog''
     = Some ((crawler one_product_crawl)
         \<lparr>visited_urls := insert ''https://shop.example/catalog''
                             (visited_urls (crawler one_product_crawl))\<rparr>) \<and>
   int (card (found_urls (crawler one_product_crawl))) < 10"
proof -
  have a: "admit (crawler one_product_crawl) ''https://shop.example/catalog''
     = Some ((crawler one_product_crawl)
         \<lparr>visited_urls := insert ''https://shop.example/catalog''
                             (visited_urls (crawler one_product_crawl))\<rparr>)"
    unfolding one_product_crawl_state by code_simp
  note t = found_urls_within_limit[of one_product "[Start, Respond 0]" "''https://shop.example''"
      10 10 "''https://shop.example/catalog''"
      "(crawler one_product_crawl)
         \<lparr>visited_urls := insert ''https://shop.example/catalog''
                             (visited_urls (crawler one_product_crawl))\<rparr>",
      folded one_product_crawl_def]
  from t a show ?thesis by blast
qed

text \<open>
  With \<open>max_urls = 1\<close>, the crawl of the shop whose entry page links to two plain pages
  visits three URLs.
\<close>

theorem visited_exceeds_max_urls:
  "max_urls (crawler two_pages_crawl) = 1 \<and>
   card (visited_urls (crawler two_pages_crawl)) = 3 \<and>
   \<not> int (card (visited_urls (crawler two_pages_crawl))) \<le> max_urls (crawler two_pages_crawl)"
  by (simp add: two_pages_crawl_result)

text \<open>
  A recorded product URL is a link, on the crawler's own host and with a product
  pattern, found on a page that was fetched and answered 200.
\<close>

lemma found_urls_links:
  "\<forall>p \<in> found_urls (crawler (run web evs (crawl_start (domain_crawler_init d mu md)))).
     is_product_url p \<and> netloc (urlparse p) = netloc (urlparse d) \<and>
     (\<exists>u links. u \<in> fst ` set (fetched (run web evs (crawl_start (domain_crawler_init d mu md))))
        \<and> web u = Ok200 links \<and> p \<in> set links)"
proof -
  define k where "k = run web evs (crawl_start (domain_crawler_init d mu md))"
  have inv: "crawl_inv web (domain_crawler_init d mu md) k"
    unfolding k_def by (rule crawl_inv_reachable)
  have dom: "domain (domain_crawler_init d mu md) = d" by (rule domain_crawler_init_fields)
  have "is_product_url p \<and> netloc (urlparse p) = netloc (urlparse d) \<and>
     (\<exists>u links. u \<in> fst ` set (fetched k) \<and> web u = Ok200 links \<and> p \<in> set links)"
    if p: "p \<in> found_urls (crawler k)" for p
  proof -
    from crawl_invD(2)[OF inv] p
    have "is_product_url p \<and>
        netloc (urlparse p) = netloc (urlparse (domain (domain_crawler_init d mu md))) \<and>
        (\<exists>u \<in> visited_urls (crawler k). \<exists>links. web u = Ok200 links \<and> p \<in> set links)"
      unfolding inv_found_def by blast
    then show ?thesis unfolding dom crawl_invD(4)[OF inv] by blast
  qed
  then show ?thesis unfolding k_def by blast
qed

text \<open>
  C8, as the code has it. The depth of a URL is the number of non-empty segments of its
  path (\<open>get_url_depth\<close>), not the number of links followed from the entry point: every
  visited URL has at most \<open>max_depth\<close> path segments, and no URL with more is admitted.
\<close>

theorem visited_path_depth_within_limit:
  "(\<forall>u \<in> visited_urls (crawler (run web evs (crawl_start (domain_crawler_init d mu md)))).
      get_url_depth u \<le> md) \<and>
   (admit c url = Some c' \<longrightarrow> get_url_depth url \<le> max_depth c)"
proof -
  define k where "k = run web evs (crawl_start (domain_crawler_init d mu md))"
  have inv: "crawl_inv web (domain_crawler_init d mu md) k"
    unfolding k_def by (rule crawl_inv_reachable)
  have md: "max_depth (domain_crawler_init d mu md) = md" by (rule domain_crawler_init_fields)
  from crawl_invD(3)[OF inv]
  have "\<forall>u \<in> visited_urls (crawler k). get_url_depth u \<le> md"
    unfolding inv_visited_def md by blast
  moreover have "admit c url = Some c' \<longrightarrow> get_url_depth url \<le> max_depth c"
    using admit_Some[of c url c'] by auto
  ultimately show ?thesis unfolding k_def by blast
qed

theorem visited_path_depth_within_limit_witness:
  "''https://shop.example/c'' \<in> visited_urls (crawler chain_crawl) \<and>
   get_url_depth ''https://shop.example/c'' \<le> 1 \<and>
   admit (domain_crawler_init ''https://shop.example'' 10 1) ''https://shop.example/c''
     = Some ((domain_crawler_init ''https://shop.example'' 10 1)
               \<lparr>visited_urls := {''https://shop.example/c''}\<rparr>) \<and>
   get_url_depth ''https://shop.example/c''
     \<le> max_depth (domain_crawler_init ''https://shop.example'' 10 1)"
proof -
  have a: "admit (domain_crawler_init ''https://shop.example'' 10 1) ''https://shop.example/c''
     = Some ((domain_crawler_init ''https://shop.example'' 10 1)
               \<lparr>visited_urls := {''https://shop.example/c''}\<rparr>)"
    by code_simp
  have v: "''https://shop.example/c'' \<in> visited_urls (crawler chain_crawl)"
    by (simp add: chain_crawl_result)
  note t = visited_path_depth_within_limit[of chain
      "[Start, Respond 0, Start, Respond 0, Start, Respond 0, Start, Respond 0]"
      "''https://shop.example''" 10 1 "domain_crawler_init ''https://shop.example'' 10 1"
      "''https://shop.example/c''"
      "(domain_crawler_init ''https://shop.example'' 10 1)
               \<lparr>visited_urls := {''https://shop.example/c''}\<rparr>",
      folded chain_crawl_def]
  from t a v show ?thesis by blast
qed

text \<open>
  With \<open>max_depth = 1\<close>, the crawl of the chain visits the page \<open>c\<close>, which is three
  links away from the entry point.
\<close>

theorem visited_beyond_max_depth_in_links:
  "max_depth (crawler chain_crawl) = 1 \<and>
   ''https://shop.example/c'' \<in> visited_urls (crawler chain_crawl) \<and>
   (''https://shop.example/c'', 3) \<in> set (fetched chain_crawl) \<and>
   \<not> int 3 \<le> max_depth (crawler chain_crawl)"
  by (simp add: chain_crawl_result)

section \<open>The browser crawler (\<open>advance.py\<close>): the crawl of a domain\<close>

text \<open>
  \<open>should_crawl_url\<close>: the host must contain the domain; none of the Amazon fragments
  may occur in the lowered URL; none of \<open>excluded_paths\<close> may occur in the lowered path;
  and the lowered path must not contain one of the words of the last pattern.
\<close>

definition amazon_excluded_patterns :: "string list" where
  "amazon_excluded_patterns =
     [''/minitv'', ''advertising.amazon'', ''brandservices.amazon'', ''accelerator.amazon'',
      ''aboutamazon'', ''/s/'', ''/b/'', ''/hz/wishlist'', ''/hz/'', ''/gp/help'', ''/gp/css'',
      ''/ap/signin'', ''/ap/'', ''/gp/cart'', ''/gp/registry'', ''/stores/'', ''/music/'',
      ''/prime'', ''/deals'', ''/gift-cards'', ''/gcx/'', ''/services'', ''/business'',
      ''/musical-instruments'']"

definition excluded_paths :: "string list" where
  "excluded_paths =
     [''/stories'', ''/payments'', ''/about-us'', ''/contact-us'', ''/help'', ''/footer'',
      ''/policy'', ''/terms'', ''/careers'', ''/blog'']"

definition non_product_words :: rexp where
  "non_product_words =
     alts [lit ''facebook'', lit ''twitter'', lit ''instagram'', lit ''linkedin'', lit ''youtube'',
           lit ''help'', lit ''support'', lit ''contact'', lit ''about'', lit ''privacy'',
           lit ''terms'', lit ''stories'']"

definition should_crawl_url :: "string \<Rightarrow> string \<Rightarrow> bool" where
  "should_crawl_url url dname =
     (let parsed_url = urlparse url in
      if \<not> str_in dname (netloc parsed_url) then False
      else if any_in amazon_excluded_patterns (lower url) then False
      else (let p = lower (path parsed_url) in
            if any_in excluded_paths p then False
            else if re_search non_product_words p then False
            else True))"

definition is_same_domain :: "string \<Rightarrow> string \<Rightarrow> bool" where
  "is_same_domain url dname = str_in dname (netloc (urlparse url))"

text \<open>
  What the browser shows for one URL: what each navigation attempt meets, and the page
  it lands on, as \<open>crawl_page\<close> reads it: the page for the classifier, the anchors in
  the DOM, the two heights (\<open>None\<close> when \<open>page.evaluate\<close> raises), and the passes of the
  scroll loop.
\<close>

record site =
  attempts :: "nat \<Rightarrow> attempt"
  landed :: page
  dom_anchors :: "string list option"
  page_height :: "int option"
  viewport_height :: "int option"
  scrolling :: "scroll_obs list"

text \<open>
  \<open>crawl_page\<close>, with the crawler it leaves and the links it returns. A page that
  classifies as a product with confidence 0.7 (the double) or more is recorded under
  \<open>domain\<close> and
  returns no links. Otherwise the links of the page, and of the scroll loop when the
  page is more than two viewports high, are returned when they are on the domain. An
  exception inside returns no links. \<open>handle_dynamic_content\<close> is called before the
  extraction; it changes nothing in the crawler and its answer is dropped. The answer
  is \<open>None\<close> only when the scroll loop runs out of observations.
\<close>

definition page_links :: "ecommerce_crawler \<Rightarrow> string \<Rightarrow> site \<Rightarrow> string set option" where
  "page_links c dname s =
     (let all_urls = extract_urls_from_page (dom_anchors s) in
      case page_height s of
        None \<Rightarrow> Some {}
      | Some ph \<Rightarrow>
          (case viewport_height s of
             None \<Rightarrow> Some {}
           | Some vh \<Rightarrow>
               (if ph > vh * 2
                then (case handle_infinite_scroll c (scrolling s) of
                        None \<Rightarrow> None
                      | Some scroll_urls \<Rightarrow>
                          Some (Set.filter (\<lambda>url. is_same_domain url dname) (all_urls \<union> scroll_urls)))
                else Some (Set.filter (\<lambda>url. is_same_domain url dname) all_urls))))"

definition crawl_page ::
  "ecommerce_crawler \<Rightarrow> string \<Rightarrow> site \<Rightarrow> (ecommerce_crawler \<times> string set) option" where
  "crawl_page c dname s =
     (case is_product_page (landed s) of
        None \<Rightarrow> map_option (Pair c) (page_links c dname s)
      | Some product_match \<Rightarrow>
          (if confidence product_match \<ge> round_double (7 / 10)
           then (case product_urls c dname of
                   None \<Rightarrow> Some (c, {})
                 | Some urls \<Rightarrow>
                     Some (c\<lparr>product_urls := (product_urls c)(dname \<mapsto> insert (pm_url product_match) urls)\<rparr>,
                           {}))
           else map_option (Pair c) (page_links c dname s)))"

text \<open>The variables of \<open>crawl_domain\<close>.\<close>

record domain_crawl =
  shop :: ecommerce_crawler
  visited :: "string set"
  urls_to_visit :: "string set"

text \<open>
  Up to the loop: the homepage \<open>https://www.<domain>\<close> is fetched; when that fails the
  function returns (\<open>None\<close>). Otherwise every link extracted from the homepage goes to
  \<open>urls_to_visit\<close>, and the homepage is visited.
\<close>

definition crawl_domain_start ::
  "ecommerce_crawler \<Rightarrow> (string \<Rightarrow> site) \<Rightarrow> string \<Rightarrow> domain_crawl option" where
  "crawl_domain_start c web dname =
     (let homepage_url = ''https://www.'' @ dname in
      case crawl_with_retry c (attempts (web homepage_url)) homepage_url 0 of
        (ok, c', sleeps) \<Rightarrow>
          (if \<not> ok then None
           else Some \<lparr>shop = c', visited = {homepage_url},
                      urls_to_visit = extract_urls_from_page (dom_anchors (web homepage_url))\<rparr>))"

text \<open>
  One pass of the \<open>while\<close> loop in which \<open>urls_to_visit.pop()\<close> returns \<open>url\<close>. The
  answer is \<open>None\<close> only when the scroll loop inside runs out of observations.
\<close>

definition crawl_domain_pass ::
  "(string \<Rightarrow> site) \<Rightarrow> string \<Rightarrow> string \<Rightarrow> domain_crawl \<Rightarrow> domain_crawl option" where
  "crawl_domain_pass web dname url st =
     (let st1 = st\<lparr>urls_to_visit := urls_to_visit st - {url}\<rparr> in
      if url \<in> visited st1 then Some st1
      else (let st2 = st1\<lparr>visited := insert url (visited st1)\<rparr> in
            case crawl_with_retry (shop st2) (attempts (web url)) url 0 of
              (ok, c', sleeps) \<Rightarrow>
                (if ok
                 then (case crawl_page c' dname (web url) of
                         None \<Rightarrow> None
                       | Some (c'', new_urls) \<Rightarrow>
                           Some (st2\<lparr>shop := c'',
                                     urls_to_visit := urls_to_visit st2 \<union>
                                       Set.filter (\<lambda>u. u \<notin> visited st2 \<and> u \<notin> urls_to_visit st2
                                                     \<and> should_crawl_url u dname) new_urls\<rparr>))
                 else Some (st2\<lparr>shop := c'\<rparr>))))"

text \<open>
  The loop \<open>while urls_to_visit and len(visited_urls) < 50\<close>, along the URLs that the
  successive \<open>pop()\<close> calls return. \<open>pop()\<close> returns some element of the set; a list that
  names a URL outside the set is not a run of the loop (\<open>None\<close>). When the list ends
  the state between two passes is returned.
\<close>

fun crawl_domain_loop ::
  "(string \<Rightarrow> site) \<Rightarrow> string \<Rightarrow> string list \<Rightarrow> domain_crawl \<Rightarrow> domain_crawl option" where
  "crawl_domain_loop web dname [] st = Some st"
| "crawl_domain_loop web dname (url # pops) st =
     (if urls_to_visit st \<noteq> {} \<and> card (visited st) < 50
      then (if url \<in> urls_to_visit st
            then (case crawl_domain_pass web dname url st of
                    None \<Rightarrow> None
                  | Some st' \<Rightarrow> crawl_domain_loop web dname pops st')
            else None)
      else Some st)"

definition crawl_domain ::
  "ecommerce_crawler \<Rightarrow> (string \<Rightarrow> site) \<Rightarrow> string \<Rightarrow> string list \<Rightarrow> domain_crawl option" where
  "crawl_domain c web dname pops =
     (case crawl_domain_start c web dname of
        None \<Rightarrow> None
      | Some st \<Rightarrow> crawl_domain_loop web dname pops st)"

text \<open>
  A shop on \<open>amazon.in\<close> whose homepage has one link, to its \<open>about-us\<close> page; every
  page loads at once, is one viewport high and matches no content pattern.
\<close>

definition plain_site :: "string \<Rightarrow> string list \<Rightarrow> site" where
  "plain_site url hrefs =
     \<lparr>attempts = (\<lambda>n. plain_attempt),
      landed = \<lparr>page_url = url, query_selector = (\<lambda>sel. NotFound), page_content = None\<rparr>,
      dom_anchors = Some hrefs, page_height = Some 1000, viewport_height = Some 1000,
      scrolling = []\<rparr>"

definition about_us_shop :: "string \<Rightarrow> site" where
  "about_us_shop url =
     (if url = ''https://www.amazon.in''
      then plain_site url [''https://www.amazon.in/about-us'']
      else plain_site url [])"

text \<open>
  A shop on \<open>amazon.in\<close> whose homepage has one link, to a product page on the host
  \<open>amazon.in\<close>.
\<close>

definition dp_shop :: "string \<Rightarrow> site" where
  "dp_shop url =
     (if url = ''https://www.amazon.in''
      then plain_site url [''https://amazon.in/dp/B0ABCDEFGH'']
      else plain_site url [])"

text \<open>
  What a crawl adds to the result map: every product of \<open>store'\<close> was in \<open>store\<close>
  under the same key, or is a URL of \<open>V\<close> at which one \<open>page.goto\<close> returned, or the
  URL of the page the browser shows for such a URL.
\<close>

definition recorded_since ::
  "(string \<Rightarrow> site) \<Rightarrow> (string \<rightharpoonup> string set) \<Rightarrow> string set \<Rightarrow> (string \<rightharpoonup> string set) \<Rightarrow> bool" where
  "recorded_since sites store V store' =
     (\<forall>k urls p. store' k = Some urls \<longrightarrow> p \<in> urls \<longrightarrow>
        (\<exists>old. store k = Some old \<and> p \<in> old) \<or>
        (\<exists>u \<in> V. (\<exists>j. goto (attempts (sites u) j) = Navigated) \<and>
                  (p = u \<or> p = page_url (landed (sites u)))))"

section \<open>The crawl of a domain: which URLs are visited\<close>

lemma crawl_domain_pass_effect:
  assumes "crawl_domain_pass web dname url st = Some st'"
  shows "visited st' \<subseteq> insert url (visited st)"
    and "urls_to_visit st' \<subseteq> urls_to_visit st \<union> {u. should_crawl_url u dname}"
proof -
  let ?st1 = "st\<lparr>urls_to_visit := urls_to_visit st - {url}\<rparr>"
  let ?st2 = "?st1\<lparr>visited := insert url (visited ?st1)\<rparr>"
  have "visited st' \<subseteq> insert url (visited st) \<and>
        urls_to_visit st' \<subseteq> urls_to_visit st \<union> {u. should_crawl_url u dname}"
  proof (cases "url \<in> visited st")
    case True
    with assms have "st' = ?st1" by (simp add: crawl_domain_pass_def)
    then show ?thesis by auto
  next
    case False
    obtain ok c' sleeps where r: "crawl_with_retry (shop ?st2) (attempts (web url)) url 0 = (ok, c', sleeps)"
      by (cases "crawl_with_retry (shop ?st2) (attempts (web url)) url 0")
    show ?thesis
    proof (cases ok)
      case no: False
      with False r assms have "st' = ?st2\<lparr>shop := c'\<rparr>"
        by (simp add: crawl_domain_pass_def)
      then show ?thesis by auto
    next
      case True
      have "crawl_page c' dname (web url) \<noteq> None"
        using True False r assms
        by (auto simp: crawl_domain_pass_def Let_def split: option.splits)
      then obtain c'' new_urls where cp: "crawl_page c' dname (web url) = Some (c'', new_urls)"
        by (cases "crawl_page c' dname (web url)") auto
      with True False r assms have
        "st' = ?st2\<lparr>shop := c'',
                    urls_to_visit := urls_to_visit ?st2 \<union>
                      Set.filter (\<lambda>u. u \<notin> visited ?st2 \<and> u \<notin> urls_to_visit ?st2
                                    \<and> should_crawl_url u dname) new_urls\<rparr>"
        by (simp add: crawl_domain_pass_def Let_def)
      then show ?thesis by auto
    qed
  qed
  then show "visited st' \<subseteq> insert url (visited st)"
    and "urls_to_visit st' \<subseteq> urls_to_visit st \<union> {u. should_crawl_url u dname}"
    by blast+
qed

text \<open>
  Inside the loop, only links that pass \<open>should_crawl_url\<close> are added to
  \<open>urls_to_visit\<close>: a visited URL is the homepage, a link of the homepage, or a URL
  that \<open>should_crawl_url\<close> accepts. The links of the homepage are not filtered.
\<close>

lemma crawl_domain_loop_visited:
  assumes "crawl_domain_loop web dname pops st = Some st'"
  shows "visited st' \<union> urls_to_visit st'
           \<subseteq> visited st \<union> urls_to_visit st \<union> {u. should_crawl_url u dname}"
  using assms
proof (induction pops arbitrary: st)
  case Nil
  then show ?case by simp
next
  case (Cons url pops)
  show ?case
  proof (cases "urls_to_visit st \<noteq> {} \<and> card (visited st) < 50")
    case False
    with Cons.prems have "st' = st" by auto
    then show ?thesis by auto
  next
    case True
    with Cons.prems have u: "url \<in> urls_to_visit st" by (auto split: if_splits)
    with True Cons.prems obtain st1 where
      p: "crawl_domain_pass web dname url st = Some st1" and
      l: "crawl_domain_loop web dname pops st1 = Some st'"
      by (auto split: option.splits)
    from Cons.IH[OF l] crawl_domain_pass_effect[OF p] u show ?thesis by blast
  qed
qed

lemma crawl_domain_visited:
  assumes "crawl_domain c web dname pops = Some st" and "u \<in> visited st"
  shows "u = ''https://www.'' @ dname \<or>
         u \<in> extract_urls_from_page (dom_anchors (web (''https://www.'' @ dname))) \<or>
         should_crawl_url u dname"
proof -
  from assms(1) obtain st0 where
    s: "crawl_domain_start c web dname = Some st0" and
    l: "crawl_domain_loop web dname pops st0 = Some st"
    by (auto simp: crawl_domain_def split: option.splits)
  from s have "visited st0 = {''https://www.'' @ dname}"
    "urls_to_visit st0 = extract_urls_from_page (dom_anchors (web (''https://www.'' @ dname)))"
    by (auto simp: crawl_domain_start_def Let_def split: prod.splits if_splits)
  with crawl_domain_loop_visited[OF l] assms(2) show ?thesis by auto
qed

text \<open>
  C6. The homepage of the shop links to its \<open>about-us\<close> page, which
  \<open>should_crawl_url\<close> rejects; the first pass of the loop pops that link and adds it to
  the visited set.
\<close>

theorem excluded_homepage_link_is_visited:
  "\<not> should_crawl_url ''https://www.amazon.in/about-us'' ''amazon.in'' \<and>
   map_option visited
     (crawl_domain amazon_in_crawler about_us_shop ''amazon.in'' [''https://www.amazon.in/about-us''])
     = Some {''https://www.amazon.in'', ''https://www.amazon.in/about-us''}"
  by code_simp

section \<open>Which product URLs are recorded\<close>

text \<open>
  \<open>crawl_with_retry\<close> writes the result map on the fast path only, after \<open>page.goto\<close>
  has returned, and it adds the URL it navigated to; \<open>crawl_page\<close> adds the URL of the
  page the browser shows.
\<close>


lemma is_product_page_url: "is_product_page pg = Some m \<Longrightarrow> pm_url m = page_url pg"
  by (auto simp: is_product_page_def Let_def split: if_splits)

lemma same_store: "\<exists>store'. (c::ecommerce_crawler) = c\<lparr>product_urls := store'\<rparr>"
  by (rule exI[of _ "product_urls c"]) simp

lemma attempt_body_store:
  assumes "attempt_body store url a = Inr (flag, store')"
  shows "goto a = Navigated \<and>
         (store' = store \<or>
          (\<exists>urls. fast_path url \<and> store (netloc (urlparse url)) = Some urls \<and>
             store' = store(netloc (urlparse url) \<mapsto> insert url urls)))"
  using assms
  by (auto simp: attempt_body_def
      split: if_splits goto_result.splits option.splits idle_result.splits)

lemma crawl_with_retry_store:
  "crawl_with_retry c env url n = (flag, c', sleeps) \<Longrightarrow>
     (\<exists>store'. c' = c\<lparr>product_urls := store'\<rparr>) \<and>
     (flag \<longrightarrow> (\<exists>j. goto (env j) = Navigated)) \<and>
     (product_urls c' = product_urls c \<or>
      (\<exists>j urls. fast_path url \<and> goto (env j) = Navigated \<and>
         product_urls c (netloc (urlparse url)) = Some urls \<and>
         product_urls c' = (product_urls c)(netloc (urlparse url) \<mapsto> insert url urls)))"
proof (induction c env url n arbitrary: flag c' sleeps rule: crawl_with_retry.induct)
  case (1 c env url retry_count)
  show ?case
  proof (cases "attempt_body (product_urls c) url (env retry_count)")
    case (Inr r)
    obtain f store where r: "r = (f, store)" by (cases r)
    with Inr "1.prems" have e: "flag = f" "c' = c\<lparr>product_urls := store\<rparr>"
      by (simp_all add: crawl_with_retry.simps[of c env url retry_count])
    from attempt_body_store[OF Inr[unfolded r]]
    have g: "goto (env retry_count) = Navigated"
      and d: "store = product_urls c \<or>
        (\<exists>urls. fast_path url \<and> product_urls c (netloc (urlparse url)) = Some urls \<and>
           store = (product_urls c)(netloc (urlparse url) \<mapsto> insert url urls))"
      by blast+
    have pu: "product_urls c' = store" using e by simp
    have a: "\<exists>store'. c' = c\<lparr>product_urls := store'\<rparr>" using e by blast
    have b: "flag \<longrightarrow> (\<exists>j. goto (env j) = Navigated)" using g by blast
    have "store = product_urls c \<or>
      (\<exists>j urls. fast_path url \<and> goto (env j) = Navigated \<and>
         product_urls c (netloc (urlparse url)) = Some urls \<and>
         store = (product_urls c)(netloc (urlparse url) \<mapsto> insert url urls))"
      using g d by blast
    with a b show ?thesis unfolding pu by blast
  next
    case (Inl e)
    show ?thesis
    proof (cases "int retry_count < max_retries c")
      case False
      with Inl "1.prems" have "flag = False" "c' = c"
        by (simp_all add: crawl_with_retry.simps[of c env url retry_count])
      then show ?thesis using same_store[of c] by auto
    next
      case True
      obtain f2 c2 s2 where r: "crawl_with_retry c env url (retry_count + 1) = (f2, c2, s2)"
        by (cases "crawl_with_retry c env url (retry_count + 1)")
      with Inl True "1.prems" have "flag = f2" "c' = c2"
        by (simp_all add: crawl_with_retry.simps[of c env url retry_count])
      with "1.IH"[OF Inl True r] show ?thesis by simp
    qed
  qed
qed

lemma crawl_page_store:
  assumes "crawl_page c dname s = Some (c', links)"
  shows "(\<exists>store'. c' = c\<lparr>product_urls := store'\<rparr>) \<and>
         (product_urls c' = product_urls c \<or>
          (\<exists>urls. product_urls c dname = Some urls \<and>
             product_urls c' = (product_urls c)(dname \<mapsto> insert (page_url (landed s)) urls)))"
proof (cases "is_product_page (landed s)")
  case None
  with assms have "c' = c" by (auto simp: crawl_page_def)
  then show ?thesis using same_store[of c] by auto
next
  case (Some m)
  note u = is_product_page_url[OF Some]
  show ?thesis
  proof (cases "confidence m \<ge> round_double (7 / 10)")
    case False
    with Some assms have "c' = c" by (auto simp: crawl_page_def)
    then show ?thesis using same_store[of c] by auto
  next
    case True
    show ?thesis
    proof (cases "product_urls c dname")
      case None
      with True Some assms have "c' = c" by (simp add: crawl_page_def)
      then show ?thesis using same_store[of c] by auto
    next
      case (Some urls)
      with True \<open>is_product_page (landed s) = Some m\<close> assms u
      have "c' = c\<lparr>product_urls := (product_urls c)(dname \<mapsto> insert (page_url (landed s)) urls)\<rparr>"
        by (simp add: crawl_page_def)
      with Some show ?thesis by auto
    qed
  qed
qed

lemma store_step:
  assumes "store' = store \<or> (\<exists>k urls. store k = Some urls \<and> store' = store(k \<mapsto> insert x urls))"
    and "store' k = Some urls" and "p \<in> urls"
  shows "(\<exists>old. store k = Some old \<and> p \<in> old) \<or> p = x"
  using assms by (auto split: if_splits)

lemma recorded_since_refl: "recorded_since sites store V store"
  unfolding recorded_since_def by blast

lemma recorded_since_trans:
  assumes "recorded_since sites s0 V s1" and "recorded_since sites s1 W s2" and "V \<subseteq> W"
  shows "recorded_since sites s0 W s2"
  unfolding recorded_since_def
proof (intro allI impI)
  fix k urls p
  assume a: "s2 k = Some urls" "p \<in> urls"
  let ?nav = "\<exists>u \<in> W. (\<exists>j. goto (attempts (sites u) j) = Navigated) \<and>
                  (p = u \<or> p = page_url (landed (sites u)))"
  from assms(2) a have "(\<exists>old. s1 k = Some old \<and> p \<in> old) \<or> ?nav"
    unfolding recorded_since_def by blast
  then show "(\<exists>old. s0 k = Some old \<and> p \<in> old) \<or> ?nav"
  proof
    assume "\<exists>old. s1 k = Some old \<and> p \<in> old"
    then obtain old where o: "s1 k = Some old" "p \<in> old" by blast
    with assms(1) have "(\<exists>old. s0 k = Some old \<and> p \<in> old) \<or>
        (\<exists>u \<in> V. (\<exists>j. goto (attempts (sites u) j) = Navigated) \<and>
                  (p = u \<or> p = page_url (landed (sites u))))"
      unfolding recorded_since_def by blast
    with assms(3) show ?thesis by blast
  qed blast
qed

lemma crawl_with_retry_recorded:
  assumes r: "crawl_with_retry c (attempts (sites url)) url n = (ok, c', sleeps)"
    and v: "url \<in> V"
  shows "recorded_since sites (product_urls c) V (product_urls c')"
  unfolding recorded_since_def
proof (intro allI impI)
  fix k urls p
  assume a: "product_urls c' k = Some urls" "p \<in> urls"
  from crawl_with_retry_store[OF r]
  have d: "product_urls c' = product_urls c \<or>
      (\<exists>j k urls. goto (attempts (sites url) j) = Navigated \<and> product_urls c k = Some urls \<and>
         product_urls c' = (product_urls c)(k \<mapsto> insert url urls))" by blast
  show "(\<exists>old. product_urls c k = Some old \<and> p \<in> old) \<or>
        (\<exists>u \<in> V. (\<exists>j. goto (attempts (sites u) j) = Navigated) \<and>
                  (p = u \<or> p = page_url (landed (sites u))))"
  proof (cases "product_urls c' = product_urls c")
    case True
    with a show ?thesis by auto
  next
    case False
    with d obtain j k' urls' where j: "goto (attempts (sites url) j) = Navigated"
      and s: "product_urls c k' = Some urls'"
        "product_urls c' = (product_urls c)(k' \<mapsto> insert url urls')" by blast
    have "product_urls c' = product_urls c \<or>
       (\<exists>k urls. product_urls c k = Some urls \<and> product_urls c' = (product_urls c)(k \<mapsto> insert url urls))"
      using s by blast
    from store_step[OF this a] j v show ?thesis by blast
  qed
qed

lemma crawl_page_recorded:
  assumes cp: "crawl_page c dname (sites url) = Some (c', links)"
    and v: "url \<in> V" and nav: "\<exists>j. goto (attempts (sites url) j) = Navigated"
  shows "recorded_since sites (product_urls c) V (product_urls c')"
  unfolding recorded_since_def
proof (intro allI impI)
  fix k urls p
  assume a: "product_urls c' k = Some urls" "p \<in> urls"
  from crawl_page_store[OF cp]
  have "product_urls c' = product_urls c \<or>
      (\<exists>urls. product_urls c dname = Some urls \<and>
         product_urls c' = (product_urls c)(dname \<mapsto> insert (page_url (landed (sites url))) urls))"
    by blast
  then have "product_urls c' = product_urls c \<or>
      (\<exists>k urls. product_urls c k = Some urls \<and>
         product_urls c' = (product_urls c)(k \<mapsto> insert (page_url (landed (sites url))) urls))"
    by blast
  from store_step[OF this a] v nav
  show "(\<exists>old. product_urls c k = Some old \<and> p \<in> old) \<or>
        (\<exists>u \<in> V. (\<exists>j. goto (attempts (sites u) j) = Navigated) \<and>
                  (p = u \<or> p = page_url (landed (sites u))))"
    by blast
qed

lemma crawl_domain_pass_recorded:
  assumes "crawl_domain_pass sites dname url st = Some st'"
  shows "visited st \<subseteq> visited st' \<and>
         recorded_since sites (product_urls (shop st)) (visited st') (product_urls (shop st'))"
proof -
  let ?st1 = "st\<lparr>urls_to_visit := urls_to_visit st - {url}\<rparr>"
  let ?st2 = "?st1\<lparr>visited := insert url (visited ?st1)\<rparr>"
  show ?thesis
  proof (cases "url \<in> visited st")
    case True
    with assms have "st' = ?st1" by (simp add: crawl_domain_pass_def)
    then show ?thesis using recorded_since_refl by simp
  next
    case False
    obtain ok c' sleeps where r: "crawl_with_retry (shop st) (attempts (sites url)) url 0 = (ok, c', sleeps)"
      by (cases "crawl_with_retry (shop st) (attempts (sites url)) url 0")
    have uv: "url \<in> insert url (visited st)" by simp
    note r1 = crawl_with_retry_recorded[where sites = sites and url = url, OF r uv]
    show ?thesis
    proof (cases ok)
      case no: False
      with False r assms have "st' = ?st2\<lparr>shop := c'\<rparr>"
        by (simp add: crawl_domain_pass_def)
      then have "visited st' = insert url (visited st)" "shop st' = c'" by simp_all
      with r1 show ?thesis by auto
    next
      case True
      with crawl_with_retry_store[OF r]
      have nav: "\<exists>j. goto (attempts (sites url) j) = Navigated" by blast
      have "crawl_page c' dname (sites url) \<noteq> None"
        using True False r assms
        by (auto simp: crawl_domain_pass_def Let_def split: option.splits)
      then obtain c'' new_urls where cp: "crawl_page c' dname (sites url) = Some (c'', new_urls)"
        by (cases "crawl_page c' dname (sites url)") auto
      with True False r assms have
        "st' = ?st2\<lparr>shop := c'',
                    urls_to_visit := urls_to_visit ?st2 \<union>
                      Set.filter (\<lambda>u. u \<notin> visited ?st2 \<and> u \<notin> urls_to_visit ?st2
                                    \<and> should_crawl_url u dname) new_urls\<rparr>"
        by (simp add: crawl_domain_pass_def Let_def)
      then have e: "visited st' = insert url (visited st)" "shop st' = c''" by simp_all
      from recorded_since_trans[OF r1 crawl_page_recorded[where sites = sites and url = url, OF cp uv nav] subset_refl] e
      show ?thesis by auto
    qed
  qed
qed

lemma crawl_domain_loop_recorded:
  assumes "crawl_domain_loop sites dname pops st = Some st'"
  shows "visited st \<subseteq> visited st' \<and>
         recorded_since sites (product_urls (shop st)) (visited st') (product_urls (shop st'))"
  using assms
proof (induction pops arbitrary: st)
  case Nil
  then show ?case using recorded_since_refl by simp
next
  case (Cons url pops)
  show ?case
  proof (cases "urls_to_visit st \<noteq> {} \<and> card (visited st) < 50")
    case False
    with Cons.prems have "st' = st" by auto
    then show ?thesis using recorded_since_refl by simp
  next
    case True
    with Cons.prems have u: "url \<in> urls_to_visit st" by (auto split: if_splits)
    with True Cons.prems obtain st1 where
      p: "crawl_domain_pass sites dname url st = Some st1" and
      l: "crawl_domain_loop sites dname pops st1 = Some st'"
      by (auto split: option.splits)
    from crawl_domain_pass_recorded[OF p]
    have a: "visited st \<subseteq> visited st1"
      "recorded_since sites (product_urls (shop st)) (visited st1) (product_urls (shop st1))"
      by blast+
    from Cons.IH[OF l]
    have b: "visited st1 \<subseteq> visited st'"
      "recorded_since sites (product_urls (shop st1)) (visited st') (product_urls (shop st'))"
      by blast+
    from recorded_since_trans[OF a(2) b(2) b(1)] a(1) b(1) show ?thesis by blast
  qed
qed

lemma crawl_domain_recorded:
  assumes "crawl_domain c sites dname pops = Some st"
  shows "recorded_since sites (product_urls c) (visited st) (product_urls (shop st))"
proof -
  let ?home = "''https://www.'' @ dname"
  from assms obtain st0 where
    s: "crawl_domain_start c sites dname = Some st0" and
    l: "crawl_domain_loop sites dname pops st0 = Some st"
    by (auto simp: crawl_domain_def split: option.splits)
  obtain ok c' sleeps where r: "crawl_with_retry c (attempts (sites ?home)) ?home 0 = (ok, c', sleeps)"
    by (cases "crawl_with_retry c (attempts (sites ?home)) ?home 0")
  with s have e: "visited st0 = {?home}" "shop st0 = c'"
    by (auto simp: crawl_domain_start_def Let_def split: if_splits)
  have "?home \<in> visited st0" using e by simp
  from crawl_with_retry_recorded[where sites = sites and url = ?home, OF r this] e
  have a: "recorded_since sites (product_urls c) (visited st0) (product_urls (shop st0))" by simp
  from crawl_domain_loop_recorded[OF l]
  have b: "visited st0 \<subseteq> visited st"
    "recorded_since sites (product_urls (shop st0)) (visited st) (product_urls (shop st))"
    by blast+
  from recorded_since_trans[OF a b(2) b(1)] show ?thesis .
qed

text \<open>The crawl of the shop with one product link.\<close>

lemma dp_shop_crawl:
  "map_option (\<lambda>st. (product_urls (shop st) ''amazon.in'', visited st))
     (crawl_domain amazon_in_crawler dp_shop ''amazon.in'' [''https://amazon.in/dp/B0ABCDEFGH''])
   = Some (Some {''https://amazon.in/dp/B0ABCDEFGH''},
           {''https://www.amazon.in'', ''https://amazon.in/dp/B0ABCDEFGH''})"
  by code_simp

lemma dp_shop_facts:
  "product_urls amazon_in_crawler ''amazon.in'' = Some {}"
  "goto (attempts (dp_shop ''https://amazon.in/dp/B0ABCDEFGH'') 0) = Navigated"
  "fast_path ''https://amazon.in/dp/B0ABCDEFGH''"
  by code_simp+

lemma crawl_with_retry_new_product:
  assumes r: "crawl_with_retry c env url n = (ok, c', sleeps)"
    and a: "product_urls c' k = Some urls" "p \<in> urls"
  shows "(\<exists>old. product_urls c k = Some old \<and> p \<in> old) \<or>
         (p = url \<and> k = netloc (urlparse url) \<and> fast_path url \<and>
          (\<exists>j. goto (env j) = Navigated))"
proof (cases "product_urls c' = product_urls c")
  case True
  with a show ?thesis by auto
next
  case False
  with crawl_with_retry_store[OF r] obtain j urls' where
    f: "fast_path url" "goto (env j) = Navigated" and
    s: "product_urls c (netloc (urlparse url)) = Some urls'"
       "product_urls c' = (product_urls c)(netloc (urlparse url) \<mapsto> insert url urls')"
    by blast
  show ?thesis
  proof (cases "k = netloc (urlparse url)")
    case True
    with s a have "p = url \<or> p \<in> urls'" by auto
    with True s f show ?thesis by blast
  next
    case False
    with s a have "product_urls c k = Some urls" by simp
    with a show ?thesis by blast
  qed
qed

lemma crawl_page_new_product:
  assumes cp: "crawl_page c dname s = Some (c', links)"
    and a: "product_urls c' k = Some urls" "p \<in> urls"
  shows "(\<exists>old. product_urls c k = Some old \<and> p \<in> old) \<or>
         (p = page_url (landed s) \<and> k = dname)"
proof (cases "product_urls c' = product_urls c")
  case True
  with a show ?thesis by auto
next
  case False
  with crawl_page_store[OF cp] obtain urls' where
    s: "product_urls c dname = Some urls'"
       "product_urls c' = (product_urls c)(dname \<mapsto> insert (page_url (landed s)) urls')"
    by blast
  show ?thesis
  proof (cases "k = dname")
    case True
    with s a have "p = page_url (landed s) \<or> p \<in> urls'" by auto
    with True s show ?thesis by blast
  next
    case False
    with s a have "product_urls c k = Some urls" by simp
    with a show ?thesis by blast
  qed
qed

text \<open>
  C7, as the code has it. In \<open>version2.py\<close> a recorded product URL is a link, on the
  crawler's own host and with a product pattern, found on a page that was fetched and
  answered 200; the product URL itself is recorded from the link and is not fetched for
  that. In \<open>advance.py\<close> every product that \<open>crawl_with_retry\<close> adds is the URL it
  navigated to on the fast path, every product that \<open>crawl_page\<close> adds is the URL of the
  page the browser shows, and every product that a crawl of a domain adds is a visited
  URL at which \<open>page.goto\<close> returned, or the URL of the page shown for it.
\<close>

theorem found_urls_are_links_of_fetched_pages:
  "(\<forall>p \<in> found_urls (crawler (run web evs (crawl_start (domain_crawler_init d mu md)))).
     is_product_url p \<and> netloc (urlparse p) = netloc (urlparse d) \<and>
     (\<exists>u links. u \<in> fst ` set (fetched (run web evs (crawl_start (domain_crawler_init d mu md))))
        \<and> web u = Ok200 links \<and> p \<in> set links)) \<and>
   (crawl_with_retry c env url n = (ok, c', sleeps) \<longrightarrow>
      product_urls c' k = Some urls \<longrightarrow> q \<in> urls \<longrightarrow>
      (\<exists>old. product_urls c k = Some old \<and> q \<in> old) \<or>
      (q = url \<and> k = netloc (urlparse url) \<and> fast_path url \<and>
       (\<exists>j. goto (env j) = Navigated))) \<and>
   (crawl_page c1 dname s = Some (c2, new_urls) \<longrightarrow>
      product_urls c2 k2 = Some urls2 \<longrightarrow> q2 \<in> urls2 \<longrightarrow>
      (\<exists>old. product_urls c1 k2 = Some old \<and> q2 \<in> old) \<or>
      (q2 = page_url (landed s) \<and> k2 = dname)) \<and>
   (crawl_domain c0 sites dn pops = Some st \<longrightarrow>
      product_urls (shop st) k3 = Some urls3 \<longrightarrow> q3 \<in> urls3 \<longrightarrow>
      (\<exists>old. product_urls c0 k3 = Some old \<and> q3 \<in> old) \<or>
      (\<exists>u \<in> visited st. (\<exists>j. goto (attempts (sites u) j) = Navigated) \<and>
          (q3 = u \<or> q3 = page_url (landed (sites u)))))"
proof (intro conjI impI)
  show "\<forall>p \<in> found_urls (crawler (run web evs (crawl_start (domain_crawler_init d mu md)))).
     is_product_url p \<and> netloc (urlparse p) = netloc (urlparse d) \<and>
     (\<exists>u links. u \<in> fst ` set (fetched (run web evs (crawl_start (domain_crawler_init d mu md))))
        \<and> web u = Ok200 links \<and> p \<in> set links)"
    by (rule found_urls_links)
next
  assume "crawl_with_retry c env url n = (ok, c', sleeps)"
    "product_urls c' k = Some urls" "q \<in> urls"
  then show "(\<exists>old. product_urls c k = Some old \<and> q \<in> old) \<or>
      (q = url \<and> k = netloc (urlparse url) \<and> fast_path url \<and>
       (\<exists>j. goto (env j) = Navigated))"
    by (rule crawl_with_retry_new_product)
next
  assume "crawl_page c1 dname s = Some (c2, new_urls)"
    "product_urls c2 k2 = Some urls2" "q2 \<in> urls2"
  then show "(\<exists>old. product_urls c1 k2 = Some old \<and> q2 \<in> old) \<or>
      (q2 = page_url (landed s) \<and> k2 = dname)"
    by (rule crawl_page_new_product)
next
  assume a: "crawl_domain c0 sites dn pops = Some st"
    "product_urls (shop st) k3 = Some urls3" "q3 \<in> urls3"
  from crawl_domain_recorded[OF a(1)] a(2,3)
  show "(\<exists>old. product_urls c0 k3 = Some old \<and> q3 \<in> old) \<or>
      (\<exists>u \<in> visited st. (\<exists>j. goto (attempts (sites u) j) = Navigated) \<and>
          (q3 = u \<or> q3 = page_url (landed (sites u))))"
    unfolding recorded_since_def by blast
qed

lemma product_link_facts:
  "is_product_url ''https://shop.example/p/1''"
  "netloc (urlparse ''https://shop.example/p/1'') = netloc (urlparse ''https://shop.example'')"
  by code_simp+

theorem found_urls_are_links_of_fetched_pages_witness:
  "(''https://shop.example/p/1'' \<in> found_urls (crawler one_product_crawl) \<and>
    is_product_url ''https://shop.example/p/1'' \<and>
    netloc (urlparse ''https://shop.example/p/1'') = netloc (urlparse ''https://shop.example'') \<and>
    (\<exists>u links. u \<in> fst ` set (fetched one_product_crawl) \<and> one_product u = Ok200 links \<and>
       ''https://shop.example/p/1'' \<in> set links)) \<and>
   (\<exists>st. crawl_domain amazon_in_crawler dp_shop ''amazon.in'' [''https://amazon.in/dp/B0ABCDEFGH'']
            = Some st \<and>
      product_urls (shop st) ''amazon.in'' = Some {''https://amazon.in/dp/B0ABCDEFGH''} \<and>
      product_urls amazon_in_crawler ''amazon.in'' = Some {} \<and>
      (\<exists>u \<in> visited st. (\<exists>j. goto (attempts (dp_shop u) j) = Navigated) \<and>
         (''https://amazon.in/dp/B0ABCDEFGH'' = u \<or>
          ''https://amazon.in/dp/B0ABCDEFGH'' = page_url (landed (dp_shop u)))))"
proof -
  have p: "''https://shop.example/p/1'' \<in> found_urls (crawler one_product_crawl)"
    by (simp add: one_product_crawl_result)
  note t = found_urls_are_links_of_fetched_pages[of one_product "[Start, Respond 0]"
      "''https://shop.example''" 10 10, folded one_product_crawl_def, THEN conjunct1]
  from t p have v2: "''https://shop.example/p/1'' \<in> found_urls (crawler one_product_crawl) \<and>
    is_product_url ''https://shop.example/p/1'' \<and>
    netloc (urlparse ''https://shop.example/p/1'') = netloc (urlparse ''https://shop.example'') \<and>
    (\<exists>u links. u \<in> fst ` set (fetched one_product_crawl) \<and> one_product u = Ok200 links \<and>
       ''https://shop.example/p/1'' \<in> set links)"
    by blast
  from dp_shop_crawl obtain st where
    st: "crawl_domain amazon_in_crawler dp_shop ''amazon.in'' [''https://amazon.in/dp/B0ABCDEFGH'']
           = Some st"
    and pu: "product_urls (shop st) ''amazon.in'' = Some {''https://amazon.in/dp/B0ABCDEFGH''}"
    by (cases "crawl_domain amazon_in_crawler dp_shop ''amazon.in'' [''https://amazon.in/dp/B0ABCDEFGH'']")
       simp_all
  have e: "product_urls amazon_in_crawler ''amazon.in'' = Some {}" by (rule dp_shop_facts)
  have m: "''https://amazon.in/dp/B0ABCDEFGH'' \<in> {''https://amazon.in/dp/B0ABCDEFGH''}" by simp
  have "(\<exists>old. product_urls amazon_in_crawler ''amazon.in'' = Some old \<and>
            ''https://amazon.in/dp/B0ABCDEFGH'' \<in> old) \<or>
        (\<exists>u \<in> visited st. (\<exists>j. goto (attempts (dp_shop u) j) = Navigated) \<and>
         (''https://amazon.in/dp/B0ABCDEFGH'' = u \<or>
          ''https://amazon.in/dp/B0ABCDEFGH'' = page_url (landed (dp_shop u))))"
    using found_urls_are_links_of_fetched_pages[where ?c0.0 = amazon_in_crawler and sites = dp_shop
        and dn = "''amazon.in''" and pops = "[''https://amazon.in/dp/B0ABCDEFGH'']" and st = st
        and ?k3.0 = "''amazon.in''" and ?urls3.0 = "{''https://amazon.in/dp/B0ABCDEFGH''}"
        and ?q3.0 = "''https://amazon.in/dp/B0ABCDEFGH''",
        THEN conjunct2, THEN conjunct2, THEN conjunct2] st pu m
    by blast
  with e have "\<exists>u \<in> visited st. (\<exists>j. goto (attempts (dp_shop u) j) = Navigated) \<and>
         (''https://amazon.in/dp/B0ABCDEFGH'' = u \<or>
          ''https://amazon.in/dp/B0ABCDEFGH'' = page_url (landed (dp_shop u)))"
    by simp
  with v2 st pu e show ?thesis by blast
qed

text \<open>
  The crawl of the shop with one product link has ended; the product URL is recorded and
  was never fetched.
\<close>

theorem product_url_never_fetched:
  "ready one_product_crawl = [] \<and> awaiting one_product_crawl = [] \<and>
   ''https://shop.example/p/1'' \<in> found_urls (crawler one_product_crawl) \<and>
   ''https://shop.example/p/1'' \<notin> fst ` set (fetched one_product_crawl) \<and>
   \<not> found_urls (crawler one_product_crawl) \<subseteq> fst ` set (fetched one_product_crawl)"
  by (simp add: one_product_crawl_result)


section \<open>The persisted output\<close>























section \<open>The persisted output: its shape in the two programs\<close>
















end
